theory Spec2Isabelle
  imports Complex_Main "HOL-Library.Product_Lexorder"
begin

section \<open>Data model of Vitya2D.py\<close>

text \<open>
  The script keeps its state in module-level variables and threads it through
  \<open>a_star\<close>, \<open>update_positions\<close> and \<open>switch_shape\<close>. The model passes that state
  explicitly as the record \<open>robot\<close>.

  Grid cells are Python tuples of unbounded ints. Anchor positions and path entries are
  numpy arrays of two float64 values; they are idealised as pairs of reals. The two
  string enumerations of the script (the keys of \<open>obstacle_types\<close> and the \<open>'type'\<close>
  tags of the three shape factories) are datatypes. Dictionaries that the script iterates
  over are association lists (keys distinct, lookup by \<open>map_of\<close>).
\<close>

type_synonym cell = "int \<times> int"
type_synonym vec = "real \<times> real"

datatype kind = Dog | Snake | Line

datatype oclass = HighWall | TunnelWall | LowWall

datatype error = KeyError

record shape =
  shape_positions :: "(nat \<times> vec) list"
  shape_connections :: "(nat \<times> nat) list"
  shape_center :: nat
  shape_type :: kind

record robot =
  current_obstacle_type :: oclass
  current_shape_type :: kind
  initial_positions :: "(nat \<times> vec) list"
  connections :: "(nat \<times> nat) list"
  center_id :: nat
  positions :: "(nat \<times> vec) list"
  grid_size :: "int \<times> int"
  obstacles :: "(cell \<times> oclass) list"
  path :: "vec list"
  step_index :: nat
  safety_margin :: int
  expanded_obstacles :: "cell set"

definition vadd :: "vec \<Rightarrow> vec \<Rightarrow> vec" where
  "vadd a b = (fst a + fst b, snd a + snd b)"

definition vsub :: "vec \<Rightarrow> vec \<Rightarrow> vec" where
  "vsub a b = (fst a - fst b, snd a - snd b)"

definition to_float :: "cell \<Rightarrow> vec" where
  \<comment> \<open>\<open>np.array(cell, dtype=float)\<close>: float64 holds an integer of magnitude up to \<open>2 ^ 53\<close>
      exactly and rounds a larger one, so the conversion is the cell itself only in that range\<close>
  "to_float c = (real_of_int (fst c), real_of_int (snd c))"

definition float_exact :: "int \<Rightarrow> bool" where
  \<comment> \<open>the integers that \<open>np.array(\<dots>, dtype=float)\<close> converts without rounding\<close>
  "float_exact n = (\<bar>n\<bar> \<le> 2 ^ 53)"

subsection \<open>Shape configurations\<close>

definition get_dog_shape :: shape where
  "get_dog_shape =
     \<lparr> shape_positions =
         [(1, (0, 2)), (2, (0, 1)), (3, (0, 0)), (4, (1, 1)), (5, (2, 2)), (6, (2, 1)),
          (7, (2, 0)), (8, (-1/2, 2)), (9, (-1/2, 0)), (10, (5/2, 2)), (11, (5/2, 0))],
       shape_connections =
         [(1, 2), (2, 3), (2, 4), (4, 6), (5, 6), (6, 7), (1, 8), (3, 9), (5, 10), (7, 11)],
       shape_center = 4,
       shape_type = Dog \<rparr>"

definition get_snake_shape :: shape where
  "get_snake_shape =
     \<lparr> shape_positions = map (\<lambda>i. (i + 1, (real i, 5 + sin (real i * (1/2))))) [0..<12],
       shape_connections = map (\<lambda>i. (i, i + 1)) [1..<12],
       shape_center = 12,
       shape_type = Snake \<rparr>"

definition get_line_shape :: shape where
  "get_line_shape =
     \<lparr> shape_positions = map (\<lambda>i. (i + 1, (real i, 5))) [0..<12],
       shape_connections = map (\<lambda>i. (i, i + 1)) [1..<12],
       shape_center = 12,
       shape_type = Line \<rparr>"

definition initial_robot :: robot where
  \<comment> \<open>the module-level assignments of lines 37 to 52\<close>
  "initial_robot =
     \<lparr> current_obstacle_type = HighWall,
       current_shape_type = Dog,
       initial_positions = shape_positions get_dog_shape,
       connections = shape_connections get_dog_shape,
       center_id = shape_center get_dog_shape,
       positions = shape_positions get_dog_shape,
       grid_size = (40, 40),
       obstacles = [],
       path = [],
       step_index = 0,
       safety_margin = 1,
       expanded_obstacles = {} \<rparr>"

subsection \<open>Python number conversions\<close>

definition py_round :: "real \<Rightarrow> int" where
  \<comment> \<open>\<open>round\<close> on a float64: nearest integer, a tie goes to the even neighbour\<close>
  "py_round x =
     (let f = \<lfloor>x\<rfloor>; d = x - real_of_int f
      in if d < 1/2 then f else if 1/2 < d then f + 1 else if even f then f else f + 1)"

definition py_int :: "real \<Rightarrow> int" where
  \<comment> \<open>\<open>int\<close> on a float64 truncates towards zero\<close>
  "py_int x = (if 0 \<le> x then \<lfloor>x\<rfloor> else \<lceil>x\<rceil>)"

definition hypot :: "real \<Rightarrow> real \<Rightarrow> real" where
  "hypot a b = sqrt (a\<^sup>2 + b\<^sup>2)"

definition heuristic :: "cell \<Rightarrow> cell \<Rightarrow> real" where
  "heuristic a b = hypot (real_of_int (fst a - fst b)) (real_of_int (snd a - snd b))"

section \<open>Planner: \<open>a_star\<close>\<close>

definition directions :: "(int \<times> int) list" where
  "directions = [(-1,0), (1,0), (0,-1), (0,1), (-1,-1), (-1,1), (1,-1), (1,1)]"

definition is_blocked :: "(cell \<times> oclass) list \<Rightarrow> kind \<Rightarrow> cell \<Rightarrow> bool" where
  "is_blocked obs k c =
     (let otype = map_of obs c
      in if k = Line then otype \<noteq> None
         else if otype = Some HighWall then True
         else if k = Dog \<and> otype = Some TunnelWall then True
         else if k = Snake \<and> otype = Some LowWall then True
         else False)"

definition in_grid :: "int \<times> int \<Rightarrow> cell \<Rightarrow> bool" where
  "in_grid gs c = (0 \<le> fst c \<and> fst c < fst gs \<and> 0 \<le> snd c \<and> snd c < snd gs)"

definition add_box :: "int \<Rightarrow> int \<times> int \<Rightarrow> cell \<Rightarrow> cell set \<Rightarrow> cell set" where
  \<comment> \<open>the two nested \<open>range(-safety_margin, safety_margin + 1)\<close> loops of lines 113 to 117\<close>
  "add_box m gs oc acc =
     fold (\<lambda>dx. fold (\<lambda>dy a.
             let n = (fst oc + dx, snd oc + dy)
             in if in_grid gs n then insert n a else a) [-m..m]) [-m..m] acc"

definition expand :: "cell set \<Rightarrow> (cell \<times> oclass) list \<Rightarrow> kind \<Rightarrow> int \<Rightarrow> int \<times> int \<Rightarrow> cell set" where
  \<comment> \<open>lines 110 to 117: the old set is cleared, then every blocking obstacle adds its box\<close>
  "expand old obs k m gs =
     fold (\<lambda>oc acc. if is_blocked obs k oc then add_box m gs oc acc else acc) (map fst obs) {}"

definition relative_offsets :: "(nat \<times> vec) list \<Rightarrow> nat \<Rightarrow> error + (nat \<times> vec) list" where
  \<comment> \<open>the comprehension of lines 119 to 122; it reads \<open>initial_positions[center_id]\<close> once
      per anchor, so an empty topology raises nothing\<close>
  "relative_offsets ip cid =
     (if ip = [] then Inr []
      else case map_of ip cid of
             None \<Rightarrow> Inl KeyError
           | Some c \<Rightarrow> Inr (map (\<lambda>(k, v). (k, vsub v c)) ip))"

fun is_valid_position :: "int \<times> int \<Rightarrow> cell set \<Rightarrow> vec list \<Rightarrow> vec \<Rightarrow> bool" where
  "is_valid_position gs ex [] center = True"
| "is_valid_position gs ex (offset # rest) center =
     (let dot_pos = vadd center offset;
          c = (py_round (fst dot_pos), py_round (snd dot_pos))
      in if \<not> in_grid gs c then False
         else if c \<in> ex then False
         else is_valid_position gs ex rest center)"

text \<open>
  The search state. \<open>heapq\<close> keeps the frontier as a binary heap of
  \<open>(priority, cell)\<close> tuples; \<open>heappop\<close> returns a least tuple in Python's tuple order
  (priority first, then the cell), and equal tuples cannot be told apart. The model keeps
  the same tuples in a sorted list: \<open>heappush\<close> is \<open>insort\<close>, \<open>heappop\<close> takes the head.
  Costs and priorities are float64 values in the script (sums of \<open>np.hypot\<close> results);
  like the positions they are idealised as reals, so that \<open>hypot 1 1\<close> is exactly the
  square root of 2. Which of several cells of equal priority the heap pops first can differ
  between the two arithmetics. What is stated of \<open>a_star\<close> below does not depend on that
  choice; claim C3, which speaks of the length of the path, is stated for \<open>a_star_fp\<close>,
  where the arithmetic is a parameter.
\<close>

record search =
  frontier :: "(real \<times> cell) list"
  came_from :: "cell \<rightharpoonup> cell option"
  cost_so_far :: "cell \<rightharpoonup> real"

definition visit ::
  "int \<times> int \<Rightarrow> cell set \<Rightarrow> vec list \<Rightarrow> cell \<Rightarrow> cell \<Rightarrow> int \<times> int \<Rightarrow> search \<Rightarrow> error + search" where
  \<comment> \<open>one round of the \<open>for dx, dy in directions\<close> loop, lines 139 to 149\<close>
  "visit gs ex offs goal current d st =
     (let neighbor = (fst current + fst d, snd current + snd d)
      in if \<not> in_grid gs neighbor then Inr st
         else if \<not> is_valid_position gs ex offs (to_float neighbor) then Inr st
         else case cost_so_far st current of
                None \<Rightarrow> Inl KeyError
              | Some c \<Rightarrow>
                  let new_cost = c + hypot (real_of_int (fst d)) (real_of_int (snd d))
                  in if (case cost_so_far st neighbor of None \<Rightarrow> True | Some old \<Rightarrow> new_cost < old)
                     then Inr (st\<lparr> cost_so_far := (cost_so_far st)(neighbor \<mapsto> new_cost),
                                   frontier := insort (new_cost + heuristic goal neighbor, neighbor)
                                                 (frontier st),
                                   came_from := (came_from st)(neighbor \<mapsto> Some current) \<rparr>)
                     else Inr st)"

fun visit_all ::
  "int \<times> int \<Rightarrow> cell set \<Rightarrow> vec list \<Rightarrow> cell \<Rightarrow> cell \<Rightarrow> (int \<times> int) list \<Rightarrow> search \<Rightarrow> error + search" where
  "visit_all gs ex offs goal current [] st = Inr st"
| "visit_all gs ex offs goal current (d # ds) st =
     (case visit gs ex offs goal current d st of
        Inl e \<Rightarrow> Inl e
      | Inr st' \<Rightarrow> visit_all gs ex offs goal current ds st')"

partial_function (option) a_star_loop ::
  "int \<times> int \<Rightarrow> cell set \<Rightarrow> vec list \<Rightarrow> cell \<Rightarrow> search \<Rightarrow> (error + search) option" where
  "a_star_loop gs ex offs goal st =
     (case frontier st of
        [] \<Rightarrow> Some (Inr st)
      | item # rest \<Rightarrow>
          let current = snd item; st1 = st\<lparr>frontier := rest\<rparr>
          in if current = goal then Some (Inr st1)
             else case visit_all gs ex offs goal current directions st1 of
                    Inl e \<Rightarrow> Some (Inl e)
                  | Inr st2 \<Rightarrow> a_star_loop gs ex offs goal st2)"

partial_function (option) walk_back ::
  "(cell \<rightharpoonup> cell option) \<Rightarrow> cell option \<Rightarrow> vec list \<Rightarrow> vec list option" where
  \<comment> \<open>lines 152 to 155: \<open>while curr and curr in came_from\<close>; a tuple is always truthy\<close>
  "walk_back cf cur p =
     (case cur of
        None \<Rightarrow> Some p
      | Some c \<Rightarrow>
          (case cf c of
             None \<Rightarrow> Some p
           | Some nxt \<Rightarrow> walk_back cf nxt (p @ [to_float c])))"

definition a_star ::
  "robot \<Rightarrow> cell \<Rightarrow> cell \<Rightarrow> (cell \<times> oclass) list \<Rightarrow> int \<times> int \<Rightarrow> ((error + vec list) \<times> robot) option" where
  \<comment> \<open>returns the path (or the exception raised) and the globals as the call leaves them;
      \<open>None\<close> stands for a call that never returns\<close>
  "a_star g start goal obs gs =
     (let ex = expand (expanded_obstacles g) obs (current_shape_type g) (safety_margin g) gs;
          g' = g\<lparr>expanded_obstacles := ex\<rparr>
      in case relative_offsets (initial_positions g) (center_id g) of
           Inl e \<Rightarrow> Some (Inl e, g')
         | Inr ro \<Rightarrow>
             (case a_star_loop gs ex (map snd ro) goal
                     \<lparr> frontier = [(0, start)],
                       came_from = [start \<mapsto> None],
                       cost_so_far = [start \<mapsto> 0] \<rparr> of
                None \<Rightarrow> None
              | Some (Inl e) \<Rightarrow> Some (Inl e, g')
              | Some (Inr st) \<Rightarrow>
                  (case walk_back (came_from st) (Some goal) [] of
                     None \<Rightarrow> None
                   | Some p \<Rightarrow> Some (Inr (rev p), g'))))"

section \<open>Motion: \<open>switch_shape\<close> and \<open>update_positions\<close>\<close>

definition switch_shape :: "shape \<Rightarrow> robot \<Rightarrow> robot" where
  "switch_shape new_shape g =
     g\<lparr> initial_positions := shape_positions new_shape,
        connections := shape_connections new_shape,
        center_id := shape_center new_shape,
        current_shape_type := shape_type new_shape,
        positions := map (\<lambda>(k, v). (k, v)) (shape_positions new_shape) \<rparr>"

fun move_all :: "(nat \<times> vec) list \<Rightarrow> nat \<Rightarrow> vec \<Rightarrow> (nat \<times> vec) list \<Rightarrow> error + (nat \<times> vec) list" where
  \<comment> \<open>lines 166 to 168: every key of \<open>positions\<close> is looked up in \<open>initial_positions\<close>\<close>
  "move_all ip cid next_pos [] = Inr []"
| "move_all ip cid next_pos ((k, old) # ps) =
     (case map_of ip k of
        None \<Rightarrow> Inl KeyError
      | Some a \<Rightarrow>
          (case map_of ip cid of
             None \<Rightarrow> Inl KeyError
           | Some b \<Rightarrow>
               (case move_all ip cid next_pos ps of
                  Inl e \<Rightarrow> Inl e
                | Inr ps' \<Rightarrow> Inr ((k, vadd next_pos (vsub a b)) # ps'))))"

definition scan_cells :: "int \<Rightarrow> cell \<Rightarrow> cell list" where
  \<comment> \<open>the cells visited by the nested loops of lines 171 to 173, in order\<close>
  "scan_cells m c = concat (map (\<lambda>dx. map (\<lambda>dy. (fst c + dx, snd c + dy)) [-m..m]) [-m..m])"

fun scan :: "robot \<Rightarrow> cell list \<Rightarrow> robot" where
  \<comment> \<open>lines 174 to 183, with the early \<open>return\<close> after a switch\<close>
  "scan g [] = g"
| "scan g (n # ns) =
     (case map_of (obstacles g) n of
        None \<Rightarrow> scan g ns
      | Some otype \<Rightarrow>
          if otype = TunnelWall \<and> current_shape_type g \<noteq> Snake
          then switch_shape get_snake_shape g
          else if otype = LowWall \<and> current_shape_type g \<noteq> Dog
          then switch_shape get_dog_shape g
          else scan g ns)"

definition moved :: "robot \<Rightarrow> error + robot" where
  \<comment> \<open>lines 163 to 168: take the next path entry and translate every anchor\<close>
  "moved g =
     (let next_pos = path g ! step_index g;
          g1 = g\<lparr>step_index := step_index g + 1\<rparr>
      in case map_of (positions g1) (center_id g1) of
           None \<Rightarrow> Inl KeyError
         | Some cpos \<Rightarrow>
             (case move_all (initial_positions g1) (center_id g1) next_pos (positions g1) of
                Inl e \<Rightarrow> Inl e
              | Inr ps \<Rightarrow> Inr (g1\<lparr>positions := ps\<rparr>)))"

definition update_positions :: "robot \<Rightarrow> error + robot" where
  "update_positions g =
     (if path g = [] \<or> step_index g \<ge> length (path g) then Inr g
      else case moved g of
             Inl e \<Rightarrow> Inl e
           | Inr g2 \<Rightarrow>
               (case map_of (positions g2) (center_id g2) of
                  None \<Rightarrow> Inl KeyError
                | Some cpos \<Rightarrow>
                    Inr (scan g2 (scan_cells (safety_margin g2) (py_int (fst cpos), py_int (snd cpos))))))"

section \<open>The switch policy of the specification\<close>

text \<open>
  The specification describes the branches of lines 176 to 183 as a table from obstacle
  class to the topology kind that must become active. The table is written here in the
  specification's words, to be compared with \<open>scan\<close> above.
\<close>

fun switch_policy :: "oclass \<Rightarrow> kind option" where
  "switch_policy TunnelWall = Some Snake"
| "switch_policy LowWall = Some Dog"
| "switch_policy HighWall = None"

fun shape_of_kind :: "kind \<Rightarrow> shape" where
  "shape_of_kind Dog = get_dog_shape"
| "shape_of_kind Snake = get_snake_shape"
| "shape_of_kind Line = get_line_shape"

definition required_kind :: "robot \<Rightarrow> cell \<Rightarrow> kind option" where
  "required_kind g n = (case map_of (obstacles g) n of None \<Rightarrow> None | Some c \<Rightarrow> switch_policy c)"

definition triggers :: "robot \<Rightarrow> cell \<Rightarrow> bool" where
  "triggers g n = (case required_kind g n of None \<Rightarrow> False | Some k \<Rightarrow> k \<noteq> current_shape_type g)"

definition switch_at :: "robot \<Rightarrow> cell \<Rightarrow> robot" where
  "switch_at g n = (case required_kind g n of None \<Rightarrow> g | Some k \<Rightarrow> switch_shape (shape_of_kind k) g)"

section \<open>Example states\<close>

definition line_robot_near_low_wall :: robot where
  \<comment> \<open>the line shape selected, one path entry left, a Low Wall on the cell it leads to\<close>
  "line_robot_near_low_wall =
     (switch_shape get_line_shape initial_robot)\<lparr> path := [(3, 3)], obstacles := [((3, 3), LowWall)] \<rparr>"

definition probe :: "oclass \<Rightarrow> kind \<Rightarrow> robot" where
  \<comment> \<open>a robot of the given kind beside a single obstacle of the given class\<close>
  "probe c k = initial_robot\<lparr> current_shape_type := k, obstacles := [((0, 0), c)] \<rparr>"


section \<open>Routes, and the invariants of the search\<close>

text \<open>
  A move leads from a cell to one of its eight neighbours, provided the neighbour lies in
  the grid and passes \<open>is_valid_position\<close>; the cell moved from is not checked. A route is
  a sequence of cells joined by moves, and its length adds the Euclidean length of each
  move. The remaining definitions state what holds of \<open>frontier\<close>, \<open>came_from\<close> and
  \<open>cost_so_far\<close> each time the \<open>while frontier\<close> loop of \<open>a_star\<close> tests its condition,
  and the measure that bounds the number of its rounds.
\<close>

definition ok :: "int \<times> int \<Rightarrow> cell set \<Rightarrow> vec list \<Rightarrow> cell \<Rightarrow> bool" where
  "ok gs ex offs n = (in_grid gs n \<and> is_valid_position gs ex offs (to_float n))"

definition move :: "int \<times> int \<Rightarrow> cell set \<Rightarrow> vec list \<Rightarrow> cell \<Rightarrow> cell \<Rightarrow> bool" where
  "move gs ex offs a b = ((fst b - fst a, snd b - snd a) \<in> set directions \<and> ok gs ex offs b)"

definition step_cost :: "cell \<Rightarrow> cell \<Rightarrow> real" where
  "step_cost a b = hypot (real_of_int (fst b - fst a)) (real_of_int (snd b - snd a))"

definition relax :: "search \<Rightarrow> cell \<Rightarrow> cell \<Rightarrow> cell \<Rightarrow> real \<Rightarrow> search" where
  "relax st goal current neighbor new_cost =
     st\<lparr> cost_so_far := (cost_so_far st)(neighbor \<mapsto> new_cost),
         frontier := insort (new_cost + heuristic goal neighbor, neighbor) (frontier st),
         came_from := (came_from st)(neighbor \<mapsto> Some current) \<rparr>"

definition inv_links :: "int \<times> int \<Rightarrow> cell set \<Rightarrow> vec list \<Rightarrow> cell \<Rightarrow> search \<Rightarrow> bool" where
  "inv_links gs ex offs start st =
     (cost_so_far st start = Some 0 \<and> came_from st start = Some None \<and>
      dom (came_from st) = dom (cost_so_far st) \<and>
      (\<forall>n c. cost_so_far st n = Some c \<longrightarrow> 0 \<le> c) \<and>
      (\<forall>n. came_from st n = Some None \<longrightarrow> n = start) \<and>
      (\<forall>n p. came_from st n = Some (Some p) \<longrightarrow>
          move gs ex offs p n \<and>
          (\<exists>cp cn. cost_so_far st p = Some cp \<and> cost_so_far st n = Some cn \<and> cp + step_cost p n \<le> cn)))"

definition inv_reach :: "int \<times> int \<Rightarrow> cell set \<Rightarrow> vec list \<Rightarrow> cell \<Rightarrow> search \<Rightarrow> bool" where
  "inv_reach gs ex offs start st = (\<forall>n \<in> dom (cost_so_far st). (move gs ex offs)\<^sup>*\<^sup>* start n)"

definition inv_front :: "cell \<Rightarrow> cell \<Rightarrow> search \<Rightarrow> bool" where
  "inv_front goal start st =
     (sorted (frontier st) \<and>
      (\<forall>e \<in> set (frontier st). \<exists>c. cost_so_far st (snd e) = Some c \<and>
           (snd e = start \<or> c + heuristic goal (snd e) \<le> fst e)))"

definition inv_closed :: "int \<times> int \<Rightarrow> cell set \<Rightarrow> vec list \<Rightarrow> cell \<Rightarrow> cell set \<Rightarrow> search \<Rightarrow> bool" where
  "inv_closed gs ex offs goal X st =
     (\<forall>n c. cost_so_far st n = Some c \<longrightarrow>
         n \<in> X \<or>
         (\<exists>pr. pr \<le> c + heuristic goal n \<and> (pr, n) \<in> set (frontier st)) \<or>
         (\<forall>m. move gs ex offs n m \<longrightarrow>
              (\<exists>cm. cost_so_far st m = Some cm \<and> cm \<le> c + step_cost n m)))"

definition is_len :: "real \<Rightarrow> bool" where
  "is_len c = (\<exists>a b :: nat. c = real a + real b * sqrt 2)"

definition cap :: "int \<times> int \<Rightarrow> nat" where
  "cap gs = 2 * (nat (fst gs) * nat (snd gs) + 1)"

definition cells :: "int \<times> int \<Rightarrow> cell \<Rightarrow> cell set" where
  "cells gs start = insert start {n. in_grid gs n}"

definition vals :: "nat \<Rightarrow> real set" where
  "vals K = (\<lambda>(a, b). real a + real b * sqrt 2) ` ({..K} \<times> {..K})"

definition inv_bound :: "int \<times> int \<Rightarrow> cell \<Rightarrow> search \<Rightarrow> bool" where
  "inv_bound gs start st =
     (dom (cost_so_far st) \<subseteq> cells gs start \<and>
      (\<forall>n c. cost_so_far st n = Some c \<longrightarrow>
          is_len c \<and> c + 2 \<le> 2 * real (card (dom (cost_so_far st)))))"

definition rank :: "nat \<Rightarrow> real \<Rightarrow> nat" where
  "rank K c = card {v \<in> vals K. v < c}"

definition rk :: "nat \<Rightarrow> search \<Rightarrow> cell \<Rightarrow> nat" where
  "rk K st n = (case cost_so_far st n of None \<Rightarrow> card (vals K) | Some c \<Rightarrow> rank K c)"

definition measure_of :: "int \<times> int \<Rightarrow> cell \<Rightarrow> search \<Rightarrow> nat" where
  "measure_of gs start st = 2 * (\<Sum>n\<in>cells gs start. rk (cap gs) st n) + length (frontier st)"

definition inv_all :: "int \<times> int \<Rightarrow> cell set \<Rightarrow> vec list \<Rightarrow> cell \<Rightarrow> cell \<Rightarrow> cell set \<Rightarrow> search \<Rightarrow> bool" where
  "inv_all gs ex offs goal start X st =
     (inv_links gs ex offs start st \<and> inv_reach gs ex offs start st \<and> inv_front goal start st \<and>
      inv_closed gs ex offs goal X st \<and> inv_bound gs start st)"

fun path_len :: "cell list \<Rightarrow> real" where
  "path_len [] = 0"
| "path_len [a] = 0"
| "path_len (a # b # rest) = step_cost a b + path_len (b # rest)"

definition is_route :: "int \<times> int \<Rightarrow> cell set \<Rightarrow> vec list \<Rightarrow> cell \<Rightarrow> cell \<Rightarrow> cell list \<Rightarrow> bool" where
  "is_route gs ex offs a b xs =
     (xs \<noteq> [] \<and> hd xs = a \<and> last xs = b \<and> successively (move gs ex offs) xs)"

definition optimal_at :: "int \<times> int \<Rightarrow> cell set \<Rightarrow> vec list \<Rightarrow> cell \<Rightarrow> cell \<Rightarrow> search \<Rightarrow> bool" where
  "optimal_at gs ex offs goal start st =
     (\<forall>xs. is_route gs ex offs start goal xs \<longrightarrow>
         (\<exists>c. cost_so_far st goal = Some c \<and> c \<le> path_len xs))"

text \<open>
  The distance of claim C3. A king step joins a cell to one of its eight neighbours, in
  the grid or not. \<open>octile a b\<close> is the length of the shortest sequence of king steps
  from \<open>a\<close> to \<open>b\<close>: as many diagonal steps as the smaller coordinate difference, and
  axis steps for the rest. \<open>fits\<close> is the footprint check along one axis of a grid
  without obstacles, and \<open>toward g a\<close> is the neighbour of \<open>a\<close> one king step nearer
  to \<open>g\<close>.
\<close>

definition king :: "cell \<Rightarrow> cell \<Rightarrow> bool" where
  "king a b = ((fst b - fst a, snd b - snd a) \<in> set directions)"

definition oct :: "real \<Rightarrow> real \<Rightarrow> real" where
  "oct x y = max \<bar>x\<bar> \<bar>y\<bar> + (sqrt 2 - 1) * min \<bar>x\<bar> \<bar>y\<bar>"

definition octile :: "cell \<Rightarrow> cell \<Rightarrow> real" where
  "octile a b = oct (real_of_int (fst b - fst a)) (real_of_int (snd b - snd a))"

definition fits :: "int \<Rightarrow> real list \<Rightarrow> int \<Rightarrow> bool" where
  "fits w os x = (0 \<le> x \<and> x < w \<and>
      (\<forall>d \<in> set os. 0 \<le> py_round (real_of_int x + d) \<and> py_round (real_of_int x + d) < w))"

definition toward :: "cell \<Rightarrow> cell \<Rightarrow> cell" where
  "toward g a = (fst a + sgn (fst g - fst a), snd a + sgn (snd g - snd a))"

text \<open>
  A planning request is in the range of the model when float64 holds every cell that the
  call converts with \<open>np.array(\<dots>, dtype=float)\<close> exactly: the cells of the grid, which
  are the neighbours it validates, and start and goal, which it writes into the path.
\<close>

definition exact_request :: "int \<times> int \<Rightarrow> cell \<Rightarrow> cell \<Rightarrow> bool" where
  "exact_request gs start goal =
     (fst gs \<le> 2 ^ 53 \<and> snd gs \<le> 2 ^ 53 \<and>
      float_exact (fst start) \<and> float_exact (snd start) \<and>
      float_exact (fst goal) \<and> float_exact (snd goal))"

section \<open>The planner with float64 arithmetic as a parameter\<close>

text \<open>
  The length of the path that \<open>a_star\<close> returns depends on its cost arithmetic. The
  script adds float64 values with \<open>+\<close> and takes \<open>np.hypot\<close> of two ints, where
  \<open>visit\<close> above adds reals and takes exact square roots: two priorities that are equal
  as reals may differ in the script by a unit in the last place, and the heap then pops
  another cell first. For claim C3 the planner is therefore stated a second time, with the
  two operations as parameters: \<open>fadd\<close> stands for \<open>+\<close> on float64 values and
  \<open>fhypot\<close> for \<open>np.hypot\<close> on two ints. \<open>heuristic_fp\<close>, \<open>visit_fp\<close>,
  \<open>visit_all_fp\<close>, \<open>a_star_loop_fp\<close> and \<open>a_star_fp\<close> are \<open>heuristic\<close>,
  \<open>visit\<close>, \<open>visit_all\<close>, \<open>a_star_loop\<close> and \<open>a_star\<close> line by line, with
  these operations in place of \<open>+\<close> and \<open>hypot\<close>; with the exact operations
  \<open>exact_ops\<close> they are the same functions.

  \<open>accurate eps A\<close> is the standard model of rounded arithmetic: an operation returns
  the exact result with a relative error of at most \<open>eps\<close>, as long as the operands are
  not negative and their sum does not exceed \<open>1 / eps\<close>. Addition in IEEE 754 binary64
  with rounding to nearest satisfies it for \<open>eps\<close> the power -53 of 2, and a \<open>hypot\<close>
  that errs by less than one unit in the last place for the power -52.
\<close>

record float_ops =
  fadd :: "real \<Rightarrow> real \<Rightarrow> real"
  fhypot :: "int \<Rightarrow> int \<Rightarrow> real"

definition exact_ops :: float_ops where
  "exact_ops = \<lparr> fadd = (+), fhypot = (\<lambda>p q. hypot (real_of_int p) (real_of_int q)) \<rparr>"

definition accurate :: "real \<Rightarrow> float_ops \<Rightarrow> bool" where
  "accurate eps A =
     (0 \<le> eps \<and>
      (\<forall>x y. 0 \<le> x \<and> 0 \<le> y \<and> eps * (x + y) \<le> 1 \<longrightarrow>
             \<bar>fadd A x y - (x + y)\<bar> \<le> eps * (x + y)) \<and>
      (\<forall>p q. eps * (\<bar>real_of_int p\<bar> + \<bar>real_of_int q\<bar>) \<le> 1 \<longrightarrow>
             \<bar>fhypot A p q - hypot (real_of_int p) (real_of_int q)\<bar>
               \<le> eps * hypot (real_of_int p) (real_of_int q)))"

definition heuristic_fp :: "float_ops \<Rightarrow> cell \<Rightarrow> cell \<Rightarrow> real" where
  \<comment> \<open>lines 88 and 89\<close>
  "heuristic_fp A a b = fhypot A (fst a - fst b) (snd a - snd b)"

definition visit_fp ::
  "float_ops \<Rightarrow> int \<times> int \<Rightarrow> cell set \<Rightarrow> vec list \<Rightarrow> cell \<Rightarrow> cell \<Rightarrow> int \<times> int \<Rightarrow> search \<Rightarrow> error + search" where
  \<comment> \<open>one round of the \<open>for dx, dy in directions\<close> loop, lines 139 to 149\<close>
  "visit_fp A gs ex offs goal current d st =
     (let neighbor = (fst current + fst d, snd current + snd d)
      in if \<not> in_grid gs neighbor then Inr st
         else if \<not> is_valid_position gs ex offs (to_float neighbor) then Inr st
         else case cost_so_far st current of
                None \<Rightarrow> Inl KeyError
              | Some c \<Rightarrow>
                  let new_cost = fadd A c (fhypot A (fst d) (snd d))
                  in if (case cost_so_far st neighbor of None \<Rightarrow> True | Some old \<Rightarrow> new_cost < old)
                     then Inr (st\<lparr> cost_so_far := (cost_so_far st)(neighbor \<mapsto> new_cost),
                                   frontier := insort (fadd A new_cost (heuristic_fp A goal neighbor), neighbor)
                                                 (frontier st),
                                   came_from := (came_from st)(neighbor \<mapsto> Some current) \<rparr>)
                     else Inr st)"

fun visit_all_fp ::
  "float_ops \<Rightarrow> int \<times> int \<Rightarrow> cell set \<Rightarrow> vec list \<Rightarrow> cell \<Rightarrow> cell \<Rightarrow> (int \<times> int) list \<Rightarrow> search \<Rightarrow> error + search" where
  "visit_all_fp A gs ex offs goal current [] st = Inr st"
| "visit_all_fp A gs ex offs goal current (d # ds) st =
     (case visit_fp A gs ex offs goal current d st of
        Inl e \<Rightarrow> Inl e
      | Inr st' \<Rightarrow> visit_all_fp A gs ex offs goal current ds st')"

partial_function (option) a_star_loop_fp ::
  "float_ops \<Rightarrow> int \<times> int \<Rightarrow> cell set \<Rightarrow> vec list \<Rightarrow> cell \<Rightarrow> search \<Rightarrow> (error + search) option" where
  "a_star_loop_fp A gs ex offs goal st =
     (case frontier st of
        [] \<Rightarrow> Some (Inr st)
      | item # rest \<Rightarrow>
          let current = snd item; st1 = st\<lparr>frontier := rest\<rparr>
          in if current = goal then Some (Inr st1)
             else case visit_all_fp A gs ex offs goal current directions st1 of
                    Inl e \<Rightarrow> Some (Inl e)
                  | Inr st2 \<Rightarrow> a_star_loop_fp A gs ex offs goal st2)"

definition a_star_fp ::
  "float_ops \<Rightarrow> robot \<Rightarrow> cell \<Rightarrow> cell \<Rightarrow> (cell \<times> oclass) list \<Rightarrow> int \<times> int \<Rightarrow> ((error + vec list) \<times> robot) option" where
  \<comment> \<open>lines 92 to 157, as \<open>a_star\<close>\<close>
  "a_star_fp A g start goal obs gs =
     (let ex = expand (expanded_obstacles g) obs (current_shape_type g) (safety_margin g) gs;
          g' = g\<lparr>expanded_obstacles := ex\<rparr>
      in case relative_offsets (initial_positions g) (center_id g) of
           Inl e \<Rightarrow> Some (Inl e, g')
         | Inr ro \<Rightarrow>
             (case a_star_loop_fp A gs ex (map snd ro) goal
                     \<lparr> frontier = [(0, start)],
                       came_from = [start \<mapsto> None],
                       cost_so_far = [start \<mapsto> 0] \<rparr> of
                None \<Rightarrow> None
              | Some (Inl e) \<Rightarrow> Some (Inl e, g')
              | Some (Inr st) \<Rightarrow>
                  (case walk_back (came_from st) (Some goal) [] of
                     None \<Rightarrow> None
                   | Some p \<Rightarrow> Some (Inr (rev p), g'))))"

text \<open>
  An arithmetic that is not exact: every sum is too large and every \<open>hypot\<close> too small,
  each by the factor \<open>1 / 2 ^ 53\<close>.
\<close>

definition skewed_ops :: float_ops where
  "skewed_ops =
     \<lparr> fadd = (\<lambda>x y. (x + y) * (1 + 1 / 2 ^ 53)),
       fhypot = (\<lambda>p q. hypot (real_of_int p) (real_of_int q) * (1 - 1 / 2 ^ 53)) \<rparr>"

text \<open>
  \<open>small gs eps\<close> bounds the relative error by the size of the grid; for the 40 by 40
  grid of the script it admits every \<open>eps\<close> up to \<open>5 / 10 ^ 14\<close>. \<open>slack gs eps\<close>
  is the absolute error that one relaxation can then add to a cost or a priority. The
  invariants of the search are those of the exact planner, each inequality between costs
  weakened by that slack; a cost is the value of \<open>cval\<close> on a word of directions, which
  bounds the number of values a cost can take and with it the number of rounds of the loop.
\<close>

definition slack :: "int \<times> int \<Rightarrow> real \<Rightarrow> real" where
  "slack gs eps = 8 * real (cap gs) * eps"

definition small :: "int \<times> int \<Rightarrow> real \<Rightarrow> bool" where
  "small gs eps = (eps * (512 * real (cap gs) ^ 3) \<le> 1)"

definition relax_fp :: "search \<Rightarrow> cell \<Rightarrow> cell \<Rightarrow> real \<Rightarrow> real \<Rightarrow> search" where
  "relax_fp st current neighbor new_cost pr =
     st\<lparr> cost_so_far := (cost_so_far st)(neighbor \<mapsto> new_cost),
         frontier := insort (pr, neighbor) (frontier st),
         came_from := (came_from st)(neighbor \<mapsto> Some current) \<rparr>"

definition cval :: "float_ops \<Rightarrow> (int \<times> int) list \<Rightarrow> real" where
  "cval A ds = foldl (\<lambda>c d. fadd A c (fhypot A (fst d) (snd d))) 0 ds"

definition words :: "nat \<Rightarrow> (int \<times> int) list set" where
  "words K = {ds. set ds \<subseteq> set directions \<and> length ds \<le> K}"

definition vals_fp :: "float_ops \<Rightarrow> nat \<Rightarrow> real set" where
  "vals_fp A K = cval A ` words K"

definition inv_links_fp :: "real \<Rightarrow> int \<times> int \<Rightarrow> cell set \<Rightarrow> vec list \<Rightarrow> cell \<Rightarrow> search \<Rightarrow> bool" where
  "inv_links_fp dl gs ex offs start st =
     (cost_so_far st start = Some 0 \<and> came_from st start = Some None \<and>
      dom (came_from st) = dom (cost_so_far st) \<and>
      (\<forall>n c. cost_so_far st n = Some c \<longrightarrow> 0 \<le> c) \<and>
      (\<forall>n. came_from st n = Some None \<longrightarrow> n = start) \<and>
      (\<forall>n p. came_from st n = Some (Some p) \<longrightarrow>
          move gs ex offs p n \<and>
          (\<exists>cp cn. cost_so_far st p = Some cp \<and> cost_so_far st n = Some cn \<and>
                   cp + step_cost p n \<le> cn + dl)))"

definition inv_front_fp :: "real \<Rightarrow> cell \<Rightarrow> cell \<Rightarrow> search \<Rightarrow> bool" where
  "inv_front_fp dl goal start st =
     (sorted (frontier st) \<and>
      (\<forall>e \<in> set (frontier st). \<exists>c. cost_so_far st (snd e) = Some c \<and>
           (snd e = start \<or> c + heuristic goal (snd e) \<le> fst e + dl)))"

definition inv_closed_fp ::
  "real \<Rightarrow> int \<times> int \<Rightarrow> cell set \<Rightarrow> vec list \<Rightarrow> cell \<Rightarrow> cell set \<Rightarrow> search \<Rightarrow> bool" where
  "inv_closed_fp dl gs ex offs goal X st =
     (\<forall>n c. cost_so_far st n = Some c \<longrightarrow>
         n \<in> X \<or>
         (\<exists>pr. pr \<le> c + heuristic goal n + dl \<and> (pr, n) \<in> set (frontier st)) \<or>
         (\<forall>m. move gs ex offs n m \<longrightarrow>
              (\<exists>cm. cost_so_far st m = Some cm \<and> cm \<le> c + step_cost n m + dl)))"

definition inv_bound_fp :: "float_ops \<Rightarrow> int \<times> int \<Rightarrow> cell \<Rightarrow> search \<Rightarrow> bool" where
  "inv_bound_fp A gs start st =
     (dom (cost_so_far st) \<subseteq> cells gs start \<and>
      (\<forall>n c. cost_so_far st n = Some c \<longrightarrow>
          (\<exists>ds. set ds \<subseteq> set directions \<and> c = cval A ds \<and> real (length ds) \<le> 2 * c) \<and>
          c + 2 \<le> 2 * real (card (dom (cost_so_far st)))))"

definition rank_fp :: "float_ops \<Rightarrow> nat \<Rightarrow> real \<Rightarrow> nat" where
  "rank_fp A K c = card {v \<in> vals_fp A K. v < c}"

definition rk_fp :: "float_ops \<Rightarrow> nat \<Rightarrow> search \<Rightarrow> cell \<Rightarrow> nat" where
  "rk_fp A K st n = (case cost_so_far st n of None \<Rightarrow> card (vals_fp A K) | Some c \<Rightarrow> rank_fp A K c)"

definition measure_fp :: "float_ops \<Rightarrow> int \<times> int \<Rightarrow> cell \<Rightarrow> search \<Rightarrow> nat" where
  "measure_fp A gs start st =
     2 * (\<Sum>n\<in>cells gs start. rk_fp A (2 * cap gs) st n) + length (frontier st)"

definition inv_all_fp ::
  "float_ops \<Rightarrow> real \<Rightarrow> int \<times> int \<Rightarrow> cell set \<Rightarrow> vec list \<Rightarrow> cell \<Rightarrow> cell \<Rightarrow> cell set \<Rightarrow> search \<Rightarrow> bool" where
  "inv_all_fp A dl gs ex offs goal start X st =
     (inv_links_fp dl gs ex offs start st \<and> inv_reach gs ex offs start st \<and>
      inv_front_fp dl goal start st \<and> inv_closed_fp dl gs ex offs goal X st \<and>
      inv_bound_fp A gs start st)"

definition optimal_fp :: "real \<Rightarrow> int \<times> int \<Rightarrow> cell set \<Rightarrow> vec list \<Rightarrow> cell \<Rightarrow> cell \<Rightarrow> search \<Rightarrow> bool" where
  "optimal_fp dl gs ex offs goal start st =
     (\<forall>xs. is_route gs ex offs start goal xs \<longrightarrow>
         (\<exists>c. cost_so_far st goal = Some c \<and> c \<le> path_len xs + dl * (real (length xs) + 1)))"

section \<open>Basic facts\<close>

lemma get_shape_types:
  "shape_type get_dog_shape = Dog" "shape_type get_snake_shape = Snake" "shape_type get_line_shape = Line"
  by (simp_all add: get_dog_shape_def get_snake_shape_def get_line_shape_def)

lemma switch_shape_fields:
  "positions (switch_shape s g) = shape_positions s"
  "initial_positions (switch_shape s g) = shape_positions s"
  "center_id (switch_shape s g) = shape_center s"
  "current_shape_type (switch_shape s g) = shape_type s"
  "connections (switch_shape s g) = shape_connections s"
  "obstacles (switch_shape s g) = obstacles g"
  "path (switch_shape s g) = path g"
  "step_index (switch_shape s g) = step_index g"
  by (simp_all add: switch_shape_def)

lemma scan_find:
  "scan g ns = (case find (triggers g) ns of None \<Rightarrow> g | Some n \<Rightarrow> switch_at g n)"
proof (induction ns)
  case Nil
  then show ?case by simp
next
  case (Cons n ns)
  show ?case
  proof (cases "map_of (obstacles g) n")
    case None
    then show ?thesis using Cons.IH by (simp add: triggers_def required_kind_def)
  next
    case (Some c)
    then show ?thesis using Cons.IH
      by (cases c; cases "current_shape_type g") (simp_all add: triggers_def required_kind_def switch_at_def)
  qed
qed

lemma move_all_center:
  "move_all ip cid nx ps = Inr ps' \<Longrightarrow> map_of ps cid = Some old \<Longrightarrow> map_of ps' cid = Some nx"
proof (induction ps arbitrary: ps')
  case Nil
  then show ?case by simp
next
  case (Cons p ps)
  obtain k v where p: "p = (k, v)" by (cases p)
  from Cons.prems(1) obtain a b qs where
    a: "map_of ip k = Some a" and b: "map_of ip cid = Some b"
    and qs: "move_all ip cid nx ps = Inr qs" and ps': "ps' = (k, vadd nx (vsub a b)) # qs"
    unfolding p by (auto split: option.splits sum.splits)
  show ?case
  proof (cases "k = cid")
    case True
    then have "a = b" using a b by simp
    then show ?thesis using True ps' by (simp add: vadd_def vsub_def)
  next
    case False
    then have "map_of ps cid = Some old" using Cons.prems(2) p by simp
    from Cons.IH[OF qs this] show ?thesis using False ps' by simp
  qed
qed

lemma moved_fields:
  assumes "moved g = Inr g2"
  shows "current_shape_type g2 = current_shape_type g" "obstacles g2 = obstacles g"
    "safety_margin g2 = safety_margin g" "center_id g2 = center_id g"
    "map_of (positions g2) (center_id g2) = Some (path g ! step_index g)"
    "step_index g2 = step_index g + 1"
proof -
  from assms obtain cpos ps where
    c: "map_of (positions g) (center_id g) = Some cpos"
    and m: "move_all (initial_positions g) (center_id g) (path g ! step_index g) (positions g) = Inr ps"
    and g2: "g2 = g\<lparr>step_index := step_index g + 1, positions := ps\<rparr>"
    unfolding moved_def Let_def by (auto split: option.splits sum.splits)
  show "current_shape_type g2 = current_shape_type g" "obstacles g2 = obstacles g"
    "safety_margin g2 = safety_margin g" "center_id g2 = center_id g" "step_index g2 = step_index g + 1"
    using g2 by simp_all
  show "map_of (positions g2) (center_id g2) = Some (path g ! step_index g)"
    using move_all_center[OF m c] g2 by simp
qed

lemma is_valid_position_iff:
  "is_valid_position gs ex offs c \<longleftrightarrow>
     (\<forall>off \<in> set offs. in_grid gs (py_round (fst c + fst off), py_round (snd c + snd off)) \<and>
                       (py_round (fst c + fst off), py_round (snd c + snd off)) \<notin> ex)"
  by (induction offs) (auto simp: Let_def vadd_def)


text \<open>
  Claim C4. The blocking predicate is a total function of the obstacle class found at the
  cell and the active kind. It is true exactly when the kind is line and the cell holds any
  obstacle, or the cell holds a High Wall, or the kind is dog and the cell holds a Tunnel
  Wall, or the kind is snake and the cell holds a Low Wall. A cell without an obstacle
  blocks no kind.
\<close>
theorem is_blocked_table:
  "is_blocked obs k c =
     ((k = Line \<and> map_of obs c \<noteq> None) \<or> map_of obs c = Some HighWall \<or>
      (k = Dog \<and> map_of obs c = Some TunnelWall) \<or> (k = Snake \<and> map_of obs c = Some LowWall))
   \<and> (map_of obs c = None \<longrightarrow> \<not> is_blocked obs k c)"
  by (cases k) (auto simp: is_blocked_def)

text \<open>Witness for C4: a Tunnel Wall under the dog, and a free cell.\<close>
theorem is_blocked_table_witness:
  "is_blocked [((2, 3), TunnelWall)] Dog (2, 3) \<and>
   map_of [((2, 3) :: cell, TunnelWall)] (0, 0) = None \<and> \<not> is_blocked [((2, 3), TunnelWall)] Dog (0, 0)"
  using is_blocked_table [of "[((2, 3), TunnelWall)]" Dog "(2, 3)"]
        is_blocked_table [of "[((2, 3), TunnelWall)]" Dog "(0, 0)"]
  by simp



lemma update_positions_scan:
  assumes "step_index g < length (path g)" and "moved g = Inr g2"
  shows "update_positions g =
           Inr (scan g2 (scan_cells (safety_margin g2)
                  (py_int (fst (path g ! step_index g)), py_int (snd (path g ! step_index g)))))"
proof -
  have ne: "path g \<noteq> []" using assms(1) by auto
  show ?thesis
    unfolding update_positions_def using ne assms moved_fields(5)[OF assms(2)]
    by simp
qed

lemma switch_at_cases:
  "switch_at g n = g \<or>
   (\<exists>k. required_kind g n = Some k \<and> switch_at g n = switch_shape (shape_of_kind k) g)"
  by (auto simp: switch_at_def split: option.splits)

lemma shape_of_kind_type: "shape_type (shape_of_kind k) = k"
  by (cases k) (simp_all add: get_shape_types)

text \<open>
  Claim C1 as stated fails: the dog at rest has its center at (1, 1); after switching to the
  line shape the center anchor is at (11, 5), not at the previous center position.
\<close>
theorem switch_shape_center_counterexample:
  "map_of (positions initial_robot) (center_id initial_robot) = Some (1, 1) \<and>
   map_of (positions (switch_shape get_line_shape initial_robot))
          (center_id (switch_shape get_line_shape initial_robot)) = Some (11, 5) \<and>
   vadd (1, 1) (vsub (11, 5) (11, 5)) \<noteq> (11, 5)"
  by (simp add: initial_robot_def get_dog_shape_def get_line_shape_def switch_shape_def
        vadd_def vsub_def upt_rec)

text \<open>
  Claim C1, amended. After every topology switch, whether requested through
  \<open>switch_shape\<close> or triggered inside \<open>update_positions\<close>, every anchor is at the new
  topology's own rest position, whatever the center position was before; the center
  anchor is at the new topology's center rest position.
\<close>
theorem switch_shape_rest_positions:
  "positions (switch_shape s g) = shape_positions s \<and>
   initial_positions (switch_shape s g) = shape_positions s \<and>
   center_id (switch_shape s g) = shape_center s \<and>
   current_shape_type (switch_shape s g) = shape_type s \<and>
   (update_positions g = Inr g' \<and> current_shape_type g' \<noteq> current_shape_type g \<longrightarrow>
      positions g' = shape_positions (shape_of_kind (current_shape_type g')) \<and>
      initial_positions g' = shape_positions (shape_of_kind (current_shape_type g')) \<and>
      center_id g' = shape_center (shape_of_kind (current_shape_type g')))"
proof (intro conjI impI)
  assume a: "update_positions g = Inr g' \<and> current_shape_type g' \<noteq> current_shape_type g"
  then have up: "update_positions g = Inr g'" and ch: "current_shape_type g' \<noteq> current_shape_type g"
    by simp_all
  have lt: "step_index g < length (path g)"
    using up ch by (auto simp: update_positions_def split: if_splits)
  then have "path g \<noteq> []" by auto
  with up lt obtain g2 where m: "moved g = Inr g2"
    by (auto simp: update_positions_def split: if_splits sum.splits)
  let ?cells = "scan_cells (safety_margin g2)
                  (py_int (fst (path g ! step_index g)), py_int (snd (path g ! step_index g)))"
  have g': "g' = scan g2 ?cells"
    using update_positions_scan[OF lt m] up by simp
  have k2: "current_shape_type g2 = current_shape_type g" using moved_fields(1)[OF m] .
  have "\<exists>k. g' = switch_shape (shape_of_kind k) g2"
  proof (cases "find (triggers g2) ?cells")
    case None
    then have "g' = g2" using g' by (simp add: scan_find)
    with ch k2 show ?thesis by simp
  next
    case (Some n)
    then have "g' = switch_at g2 n" using g' by (simp add: scan_find)
    with switch_at_cases[of g2 n] ch k2 show ?thesis by auto
  qed
  then obtain k where k: "g' = switch_shape (shape_of_kind k) g2" by blast
  then have "current_shape_type g' = k" by (simp add: switch_shape_fields shape_of_kind_type)
  with k have e: "g' = switch_shape (shape_of_kind (current_shape_type g')) g2" by simp
  show "positions g' = shape_positions (shape_of_kind (current_shape_type g'))"
    by (subst e) (simp add: switch_shape_fields)
  show "initial_positions g' = shape_positions (shape_of_kind (current_shape_type g'))"
    by (subst e) (simp add: switch_shape_fields)
  show "center_id g' = shape_center (shape_of_kind (current_shape_type g'))"
    by (subst e) (simp add: switch_shape_fields)
qed (simp_all add: switch_shape_fields)

lemma line_robot_moved:
  "moved line_robot_near_low_wall =
     Inr (line_robot_near_low_wall\<lparr> step_index := 1,
            positions := map (\<lambda>(k, v). (k, vadd (3, 3) (vsub v (11, 5)))) (shape_positions get_line_shape) \<rparr>)"
  by (simp add: Let_def moved_def line_robot_near_low_wall_def switch_shape_def initial_robot_def
        get_line_shape_def upt_rec vadd_def vsub_def)

lemma line_robot_update:
  "update_positions line_robot_near_low_wall =
     Inr (switch_shape get_dog_shape (line_robot_near_low_wall\<lparr> step_index := 1,
            positions := map (\<lambda>(k, v). (k, vadd (3, 3) (vsub v (11, 5)))) (shape_positions get_line_shape) \<rparr>))"
  unfolding update_positions_def line_robot_moved
  by (simp add: line_robot_near_low_wall_def switch_shape_def initial_robot_def
        get_line_shape_def upt_rec vadd_def vsub_def scan_cells_def py_int_def upto.simps)

text \<open>Witness for the amended C1: the line robot steps beside a Low Wall and becomes the dog.\<close>
theorem switch_shape_rest_positions_witness:
  "update_positions line_robot_near_low_wall =
     Inr (switch_shape get_dog_shape (line_robot_near_low_wall\<lparr> step_index := 1,
            positions := map (\<lambda>(k, v). (k, vadd (3, 3) (vsub v (11, 5)))) (shape_positions get_line_shape) \<rparr>)) \<and>
   current_shape_type line_robot_near_low_wall = Line \<and>
   positions (switch_shape get_dog_shape (line_robot_near_low_wall\<lparr> step_index := 1,
            positions := map (\<lambda>(k, v). (k, vadd (3, 3) (vsub v (11, 5)))) (shape_positions get_line_shape) \<rparr>))
     = shape_positions get_dog_shape"
  using switch_shape_rest_positions [of get_dog_shape line_robot_near_low_wall
            "switch_shape get_dog_shape (line_robot_near_low_wall\<lparr> step_index := 1,
            positions := map (\<lambda>(k, v). (k, vadd (3, 3) (vsub v (11, 5)))) (shape_positions get_line_shape) \<rparr>)"]
    line_robot_update
  by (simp add: line_robot_near_low_wall_def switch_shape_fields get_shape_types)

section \<open>Inflation\<close>

lemma fold_union: "fold (\<lambda>x a. a \<union> f x) xs acc = acc \<union> (\<Union>x\<in>set xs. f x)"
  by (induction xs arbitrary: acc) auto

lemma row_fun:
  "(\<lambda>dy a. let n = (fst oc + dx, snd oc + dy) in if in_grid gs n then insert n a else a)
   = (\<lambda>dy a. a \<union> (if in_grid gs (fst oc + dx, snd oc + dy) then {(fst oc + dx, snd oc + dy)} else {}))"
  by (intro ext) (simp add: Let_def)

lemma add_box_fold:
  "add_box m gs oc acc
        = acc \<union> (\<Union>dx\<in>{-m..m}. \<Union>dy\<in>{-m..m}.
                    if in_grid gs (fst oc + dx, snd oc + dy) then {(fst oc + dx, snd oc + dy)} else {})"
  unfolding add_box_def row_fun fold_union by simp

lemma box_mem:
  "n \<in> (\<Union>dx\<in>{-m..m}. \<Union>dy\<in>{-m..m}.
           if in_grid gs (fst oc + dx, snd oc + dy) then {(fst oc + dx, snd oc + dy)} else {})
   \<longleftrightarrow> in_grid gs n \<and> \<bar>fst n - fst oc\<bar> \<le> m \<and> \<bar>snd n - snd oc\<bar> \<le> m"
  (is "n \<in> ?B \<longleftrightarrow> ?R")
proof
  assume "n \<in> ?B"
  then obtain dx dy where d: "dx \<in> {-m..m}" "dy \<in> {-m..m}"
    and n: "n \<in> (if in_grid gs (fst oc + dx, snd oc + dy) then {(fst oc + dx, snd oc + dy)} else {})"
    by blast
  from n have "in_grid gs (fst oc + dx, snd oc + dy)" "n = (fst oc + dx, snd oc + dy)"
    by (simp_all split: if_splits)
  with d show ?R by (simp add: abs_le_iff)
next
  assume a: ?R
  let ?dx = "fst n - fst oc" and ?dy = "snd n - snd oc"
  have d: "?dx \<in> {-m..m}" "?dy \<in> {-m..m}" using a by (simp_all add: abs_le_iff)
  have e: "(fst oc + ?dx, snd oc + ?dy) = n" by simp
  have "n \<in> (if in_grid gs (fst oc + ?dx, snd oc + ?dy) then {(fst oc + ?dx, snd oc + ?dy)} else {})"
    unfolding e using a by simp
  with d show "n \<in> ?B" by blast
qed

lemma add_box_eq:
  "add_box m gs oc acc
   = acc \<union> {n. in_grid gs n \<and> \<bar>fst n - fst oc\<bar> \<le> m \<and> \<bar>snd n - snd oc\<bar> \<le> m}"
proof -
  have "(\<Union>dx\<in>{-m..m}. \<Union>dy\<in>{-m..m}.
           if in_grid gs (fst oc + dx, snd oc + dy) then {(fst oc + dx, snd oc + dy)} else {})
        = {n. in_grid gs n \<and> \<bar>fst n - fst oc\<bar> \<le> m \<and> \<bar>snd n - snd oc\<bar> \<le> m}"
    by (rule set_eqI) (simp only: box_mem mem_Collect_eq)
  then show ?thesis unfolding add_box_fold by simp
qed

lemma step_fun:
  "(\<lambda>oc acc. if is_blocked obs k oc then add_box m gs oc acc else acc)
        = (\<lambda>oc acc. acc \<union> (if is_blocked obs k oc
                              then {n. in_grid gs n \<and> \<bar>fst n - fst oc\<bar> \<le> m \<and> \<bar>snd n - snd oc\<bar> \<le> m}
                              else {}))"
  by (intro ext) (simp add: add_box_eq)

lemma expand_eq:
  "expand old obs k m gs
   = {n. in_grid gs n \<and>
         (\<exists>oc \<in> set (map fst obs). is_blocked obs k oc \<and> \<bar>fst n - fst oc\<bar> \<le> m \<and> \<bar>snd n - snd oc\<bar> \<le> m)}"
proof -
  have "expand old obs k m gs
        = (\<Union>oc\<in>set (map fst obs). if is_blocked obs k oc
                              then {n. in_grid gs n \<and> \<bar>fst n - fst oc\<bar> \<le> m \<and> \<bar>snd n - snd oc\<bar> \<le> m}
                              else {})"
    unfolding expand_def step_fun fold_union by simp
  also have "\<dots> = {n. in_grid gs n \<and>
         (\<exists>oc \<in> set (map fst obs). is_blocked obs k oc \<and> \<bar>fst n - fst oc\<bar> \<le> m \<and> \<bar>snd n - snd oc\<bar> \<le> m)}"
    by (rule set_eqI) (simp split: if_splits, blast)
  finally show ?thesis .
qed

section \<open>Switching during motion\<close>

lemma set_scan_cells:
  "set (scan_cells m c) = {n. \<bar>fst n - fst c\<bar> \<le> m \<and> \<bar>snd n - snd c\<bar> \<le> m}"
proof (rule set_eqI)
  fix n :: cell
  have "n \<in> set (scan_cells m c) \<longleftrightarrow> (\<exists>dx\<in>{-m..m}. \<exists>dy\<in>{-m..m}. n = (fst c + dx, snd c + dy))"
    unfolding scan_cells_def by auto
  also have "\<dots> \<longleftrightarrow> \<bar>fst n - fst c\<bar> \<le> m \<and> \<bar>snd n - snd c\<bar> \<le> m"
  proof
    assume "\<exists>dx\<in>{-m..m}. \<exists>dy\<in>{-m..m}. n = (fst c + dx, snd c + dy)"
    then show "\<bar>fst n - fst c\<bar> \<le> m \<and> \<bar>snd n - snd c\<bar> \<le> m" by (auto simp: abs_le_iff)
  next
    assume a: "\<bar>fst n - fst c\<bar> \<le> m \<and> \<bar>snd n - snd c\<bar> \<le> m"
    have "fst n - fst c \<in> {-m..m}" "snd n - snd c \<in> {-m..m}" using a by (simp_all add: abs_le_iff)
    moreover have "n = (fst c + (fst n - fst c), snd c + (snd n - snd c))" by simp
    ultimately show "\<exists>dx\<in>{-m..m}. \<exists>dy\<in>{-m..m}. n = (fst c + dx, snd c + dy)" by blast
  qed
  finally show "n \<in> set (scan_cells m c) \<longleftrightarrow> n \<in> {n. \<bar>fst n - fst c\<bar> \<le> m \<and> \<bar>snd n - snd c\<bar> \<le> m}"
    by simp
qed

text \<open>
  Claim C8. When \<open>update_positions\<close> has moved the body to the next path entry, it scans
  the box of side \<open>2 * safety_margin + 1\<close> around the new center cell in loop order. At the
  first cell whose obstacle class names, in the switch policy, a kind different from the
  active one, it switches to that kind's shape and returns at once; when no cell does, the
  moved state is returned with its topology unchanged.
\<close>
theorem update_positions_switch_policy:
  assumes "step_index g < length (path g)" and "moved g = Inr g2"
  shows "update_positions g =
           Inr (case find (triggers g2)
                       (scan_cells (safety_margin g)
                          (py_int (fst (path g ! step_index g)), py_int (snd (path g ! step_index g)))) of
                  None \<Rightarrow> g2
                | Some n \<Rightarrow> switch_at g2 n) \<and>
         map_of (positions g2) (center_id g2) = Some (path g ! step_index g) \<and>
         current_shape_type g2 = current_shape_type g \<and>
         set (scan_cells (safety_margin g)
                (py_int (fst (path g ! step_index g)), py_int (snd (path g ! step_index g))))
           = {n. \<bar>fst n - py_int (fst (path g ! step_index g))\<bar> \<le> safety_margin g \<and>
                 \<bar>snd n - py_int (snd (path g ! step_index g))\<bar> \<le> safety_margin g}"
  using update_positions_scan[OF assms] moved_fields[OF assms(2)]
  by (simp add: scan_find set_scan_cells)

text \<open>Witness for C8: the line robot steps onto a cell that holds a Low Wall.\<close>
theorem update_positions_switch_policy_witness:
  "step_index line_robot_near_low_wall < length (path line_robot_near_low_wall) \<and>
   moved line_robot_near_low_wall =
     Inr (line_robot_near_low_wall\<lparr> step_index := 1,
            positions := map (\<lambda>(k, v). (k, vadd (3, 3) (vsub v (11, 5)))) (shape_positions get_line_shape) \<rparr>) \<and>
   update_positions line_robot_near_low_wall =
     Inr (switch_shape get_dog_shape (line_robot_near_low_wall\<lparr> step_index := 1,
            positions := map (\<lambda>(k, v). (k, vadd (3, 3) (vsub v (11, 5)))) (shape_positions get_line_shape) \<rparr>))"
proof -
  have h1: "step_index line_robot_near_low_wall < length (path line_robot_near_low_wall)"
    by (simp add: line_robot_near_low_wall_def switch_shape_def initial_robot_def)
  have cells: "scan_cells 1 (3, 3) = [(2,2),(2,3),(2,4),(3,2),(3,3),(3,4),(4,2),(4,3),(4,4)]"
    by (simp add: scan_cells_def upto.simps)
  have m: "safety_margin line_robot_near_low_wall = 1" "path line_robot_near_low_wall ! step_index line_robot_near_low_wall = (3, 3)"
    by (simp_all add: line_robot_near_low_wall_def switch_shape_def initial_robot_def)
  show ?thesis
    using h1 line_robot_moved update_positions_switch_policy [OF h1 line_robot_moved]
    by (simp add: m cells py_int_def triggers_def required_kind_def switch_at_def
          line_robot_near_low_wall_def switch_shape_def initial_robot_def get_shape_types)
qed

text \<open>
  Claim C9 as stated fails: for each of the nine pairs of obstacle class and kind, either
  the class blocks the kind or scanning that obstacle leaves the kind unchanged. No pair is
  non-blocking and switching.
\<close>
theorem switch_without_block_counterexample:
  "(is_blocked (obstacles (probe HighWall Dog)) Dog (0, 0) \<or> current_shape_type (scan (probe HighWall Dog) [(0, 0)]) = Dog) \<and>
   (is_blocked (obstacles (probe HighWall Snake)) Snake (0, 0) \<or> current_shape_type (scan (probe HighWall Snake) [(0, 0)]) = Snake) \<and>
   (is_blocked (obstacles (probe HighWall Line)) Line (0, 0) \<or> current_shape_type (scan (probe HighWall Line) [(0, 0)]) = Line) \<and>
   (is_blocked (obstacles (probe TunnelWall Dog)) Dog (0, 0) \<or> current_shape_type (scan (probe TunnelWall Dog) [(0, 0)]) = Dog) \<and>
   (is_blocked (obstacles (probe TunnelWall Snake)) Snake (0, 0) \<or> current_shape_type (scan (probe TunnelWall Snake) [(0, 0)]) = Snake) \<and>
   (is_blocked (obstacles (probe TunnelWall Line)) Line (0, 0) \<or> current_shape_type (scan (probe TunnelWall Line) [(0, 0)]) = Line) \<and>
   (is_blocked (obstacles (probe LowWall Dog)) Dog (0, 0) \<or> current_shape_type (scan (probe LowWall Dog) [(0, 0)]) = Dog) \<and>
   (is_blocked (obstacles (probe LowWall Snake)) Snake (0, 0) \<or> current_shape_type (scan (probe LowWall Snake) [(0, 0)]) = Snake) \<and>
   (is_blocked (obstacles (probe LowWall Line)) Line (0, 0) \<or> current_shape_type (scan (probe LowWall Line) [(0, 0)]) = Line)"
  by (simp add: probe_def is_blocked_def)

lemma triggers_blocked:
  assumes "triggers g n"
  shows "is_blocked (obstacles g) (current_shape_type g) n"
proof -
  from assms obtain c k where c: "map_of (obstacles g) n = Some c" and k: "switch_policy c = Some k"
    and ne: "k \<noteq> current_shape_type g"
    by (auto simp: triggers_def required_kind_def split: option.splits)
  show ?thesis
    using c k ne by (cases c; cases "current_shape_type g") (simp_all add: is_blocked_def)
qed

text \<open>
  Claim C9, amended. Whenever \<open>update_positions\<close> changes the active topology, the
  obstacle that triggered the switch lies in the scanned box and its class is blocking for
  the kind that was active: every switching pair of class and kind is also a blocking pair.
\<close>
theorem switch_implies_blocking:
  assumes "update_positions g = Inr g'" and "current_shape_type g' \<noteq> current_shape_type g"
  shows "\<exists>n. \<bar>fst n - py_int (fst (path g ! step_index g))\<bar> \<le> safety_margin g \<and>
             \<bar>snd n - py_int (snd (path g ! step_index g))\<bar> \<le> safety_margin g \<and>
             (\<exists>c. map_of (obstacles g) n = Some c \<and> switch_policy c = Some (current_shape_type g')) \<and>
             is_blocked (obstacles g) (current_shape_type g) n"
proof -
  have lt: "step_index g < length (path g)"
    using assms by (auto simp: update_positions_def split: if_splits)
  with assms(1) obtain g2 where m: "moved g = Inr g2"
    by (auto simp: update_positions_def split: if_splits sum.splits)
  let ?cells = "scan_cells (safety_margin g)
                  (py_int (fst (path g ! step_index g)), py_int (snd (path g ! step_index g)))"
  note mf = moved_fields[OF m]
  have g': "g' = (case find (triggers g2) ?cells of None \<Rightarrow> g2 | Some n \<Rightarrow> switch_at g2 n)"
    using update_positions_scan[OF lt m] assms(1) by (simp add: scan_find mf)
  obtain n where f: "find (triggers g2) ?cells = Some n"
    using g' assms(2) mf(1) by (cases "find (triggers g2) ?cells") auto
  then have tr: "triggers g2 n" and mem: "n \<in> set ?cells"
    by (auto simp: find_Some_iff)
  from tr obtain c k where c: "map_of (obstacles g) n = Some c" and k: "switch_policy c = Some k"
    by (auto simp: triggers_def required_kind_def mf split: option.splits)
  have "g' = switch_shape (shape_of_kind k) g2"
    using g' f c k by (simp add: switch_at_def required_kind_def mf)
  then have kk: "current_shape_type g' = k" by (simp add: switch_shape_fields shape_of_kind_type)
  have "is_blocked (obstacles g) (current_shape_type g) n"
    using triggers_blocked[OF tr] by (simp add: mf)
  moreover have "\<bar>fst n - py_int (fst (path g ! step_index g))\<bar> \<le> safety_margin g"
    "\<bar>snd n - py_int (snd (path g ! step_index g))\<bar> \<le> safety_margin g"
    using mem unfolding set_scan_cells by simp_all
  moreover have "\<exists>c. map_of (obstacles g) n = Some c \<and> switch_policy c = Some (current_shape_type g')"
    using c k kk by simp
  ultimately show ?thesis by blast
qed

text \<open>Witness for the amended C9: the Low Wall that turns the line into the dog blocks the line.\<close>
theorem switch_implies_blocking_witness:
  "update_positions line_robot_near_low_wall =
     Inr (switch_shape get_dog_shape (line_robot_near_low_wall\<lparr> step_index := 1,
            positions := map (\<lambda>(k, v). (k, vadd (3, 3) (vsub v (11, 5)))) (shape_positions get_line_shape) \<rparr>)) \<and>
   current_shape_type line_robot_near_low_wall = Line \<and>
   (\<exists>n. \<bar>fst n - 3\<bar> \<le> 1 \<and> \<bar>snd n - 3\<bar> \<le> 1 \<and>
        map_of (obstacles line_robot_near_low_wall) n = Some LowWall \<and>
        is_blocked (obstacles line_robot_near_low_wall) Line n)"
proof -
  let ?G = "switch_shape get_dog_shape (line_robot_near_low_wall\<lparr> step_index := 1,
            positions := map (\<lambda>(k, v). (k, vadd (3, 3) (vsub v (11, 5)))) (shape_positions get_line_shape) \<rparr>)"
  have k: "current_shape_type line_robot_near_low_wall = Line"
    by (simp add: line_robot_near_low_wall_def switch_shape_def get_line_shape_def)
  have k': "current_shape_type ?G = Dog"
    by (simp add: switch_shape_def get_dog_shape_def)
  have ne: "current_shape_type ?G \<noteq> current_shape_type line_robot_near_low_wall"
    unfolding k k' by simp
  have m: "safety_margin line_robot_near_low_wall = 1" "path line_robot_near_low_wall ! step_index line_robot_near_low_wall = (3, 3)"
    by (simp_all add: line_robot_near_low_wall_def switch_shape_def initial_robot_def)
  from switch_implies_blocking [OF line_robot_update ne]
  obtain n where "\<bar>fst n - 3\<bar> \<le> 1" "\<bar>snd n - 3\<bar> \<le> 1"
     "\<exists>c. map_of (obstacles line_robot_near_low_wall) n = Some c \<and> switch_policy c = Some Dog"
     "is_blocked (obstacles line_robot_near_low_wall) Line n"
    unfolding k k' m by (auto simp: py_int_def)
  moreover then have "map_of (obstacles line_robot_near_low_wall) n = Some LowWall"
    by (auto elim: switch_policy.elims)
  ultimately show ?thesis using line_robot_update k by blast
qed

section \<open>The search: termination, routes and optimality\<close>

lemma step_cost_dir:
  assumes "(fst b - fst a, snd b - snd a) \<in> set directions"
  shows "step_cost a b = 1 \<or> step_cost a b = sqrt 2"
proof -
  define dx dy where "dx = fst b - fst a" and "dy = snd b - snd a"
  have "(dx, dy) \<in> set directions" using assms by (simp add: dx_def dy_def)
  then have "hypot (real_of_int dx) (real_of_int dy) = 1 \<or> hypot (real_of_int dx) (real_of_int dy) = sqrt 2"
    by (auto simp: directions_def hypot_def)
  then show ?thesis by (simp only: step_cost_def dx_def dy_def)
qed

lemma sqrt2_bounds: "1 < sqrt 2" "sqrt 2 < 2"
proof -
  show "1 < sqrt 2" by simp
  show "sqrt 2 < 2" by (rule real_less_lsqrt) simp_all
qed

lemma step_cost_bounds:
  assumes "(fst b - fst a, snd b - snd a) \<in> set directions"
  shows "1 \<le> step_cost a b" "step_cost a b \<le> 2"
  using step_cost_dir[OF assms] sqrt2_bounds by auto

lemma visit_cases:
  assumes "cost_so_far st cur = Some c" and "d \<in> set directions"
  shows "(visit gs ex offs goal cur d st = Inr st \<and>
            (ok gs ex offs (fst cur + fst d, snd cur + snd d) \<longrightarrow>
               (\<exists>old. cost_so_far st (fst cur + fst d, snd cur + snd d) = Some old \<and>
                      old \<le> c + step_cost cur (fst cur + fst d, snd cur + snd d)))) \<or>
         (move gs ex offs cur (fst cur + fst d, snd cur + snd d) \<and>
          (\<forall>old. cost_so_far st (fst cur + fst d, snd cur + snd d) = Some old \<longrightarrow>
                   c + step_cost cur (fst cur + fst d, snd cur + snd d) < old) \<and>
          visit gs ex offs goal cur d st =
            Inr (relax st goal cur (fst cur + fst d, snd cur + snd d)
                   (c + step_cost cur (fst cur + fst d, snd cur + snd d))))"
proof -
  let ?m = "(fst cur + fst d, snd cur + snd d)"
  have sc: "step_cost cur ?m = hypot (real_of_int (fst d)) (real_of_int (snd d))"
    by (simp add: step_cost_def)
  have mv: "ok gs ex offs ?m \<Longrightarrow> move gs ex offs cur ?m"
    using assms(2) by (simp add: move_def)
  show ?thesis
  proof (cases "ok gs ex offs ?m")
    case False
    then show ?thesis by (auto simp: visit_def ok_def Let_def)
  next
    case True
    then have g: "in_grid gs ?m" "is_valid_position gs ex offs (to_float ?m)"
      by (simp_all add: ok_def)
    show ?thesis
    proof (cases "cost_so_far st ?m")
      case None
      then show ?thesis using g assms(1) mv[OF True]
        by (simp add: visit_def Let_def relax_def sc)
    next
      case (Some old)
      then show ?thesis using g assms(1) mv[OF True] True
        by (simp add: visit_def Let_def relax_def sc)
    qed
  qed
qed

lemma relax_fields:
  "cost_so_far (relax st goal cur m nc) = (cost_so_far st)(m \<mapsto> nc)"
  "came_from (relax st goal cur m nc) = (came_from st)(m \<mapsto> Some cur)"
  "set (frontier (relax st goal cur m nc)) = insert (nc + heuristic goal m, m) (set (frontier st))"
  "length (frontier (relax st goal cur m nc)) = Suc (length (frontier st))"
  "sorted (frontier (relax st goal cur m nc)) = sorted (frontier st)"
  by (simp_all add: relax_def set_insort_key sorted_insort)

lemma move_step:
  assumes "move gs ex offs a b"
  shows "1 \<le> step_cost a b" "step_cost a b \<le> 2" "a \<noteq> b" "in_grid gs b"
proof -
  have d: "(fst b - fst a, snd b - snd a) \<in> set directions" using assms by (simp add: move_def)
  show "1 \<le> step_cost a b" "step_cost a b \<le> 2" using step_cost_bounds[OF d] .
  show "a \<noteq> b" using d by (auto simp: directions_def)
  show "in_grid gs b" using assms by (simp add: move_def ok_def)
qed

lemma inv_linksD:
  assumes "inv_links gs ex offs start st"
  shows "cost_so_far st start = Some 0" "came_from st start = Some None"
    "dom (came_from st) = dom (cost_so_far st)"
    "\<And>n c. cost_so_far st n = Some c \<Longrightarrow> 0 \<le> c"
    "\<And>n. came_from st n = Some None \<Longrightarrow> n = start"
    "\<And>n p. came_from st n = Some (Some p) \<Longrightarrow>
          move gs ex offs p n \<and>
          (\<exists>cp cn. cost_so_far st p = Some cp \<and> cost_so_far st n = Some cn \<and> cp + step_cost p n \<le> cn)"
  using assms unfolding inv_links_def by blast+

lemma relax_links:
  assumes inv: "inv_links gs ex offs start st"
    and c: "cost_so_far st cur = Some c"
    and mv: "move gs ex offs cur m"
    and lt: "\<forall>old. cost_so_far st m = Some old \<longrightarrow> c + step_cost cur m < old"
  shows "inv_links gs ex offs start (relax st goal cur m (c + step_cost cur m))"
proof -
  note s = move_step[OF mv]
  note d = inv_linksD[OF inv]
  have c0: "0 \<le> c" using d(4)[OF c] .
  have ms: "m \<noteq> start"
  proof
    assume "m = start"
    then have "cost_so_far st m = Some 0" using d(1) by simp
    with lt have "c + step_cost cur m < 0" by simp
    with c0 s(1) show False by linarith
  qed
  have mc: "m \<noteq> cur" using s(3) by simp
  let ?st = "relax st goal cur m (c + step_cost cur m)"
  have links: "move gs ex offs p n \<and>
          (\<exists>cp cn. cost_so_far ?st p = Some cp \<and> cost_so_far ?st n = Some cn \<and> cp + step_cost p n \<le> cn)"
    if h: "came_from ?st n = Some (Some p)" for n p
  proof (cases "n = m")
    case True
    then have "p = cur" using h by (simp add: relax_fields)
    then show ?thesis using True mv c mc by (simp add: relax_fields)
  next
    case False
    then have "came_from st n = Some (Some p)" using h by (simp add: relax_fields)
    from d(6)[OF this] obtain cp cn where o: "move gs ex offs p n" "cost_so_far st p = Some cp"
      "cost_so_far st n = Some cn" "cp + step_cost p n \<le> cn"
      by blast
    show ?thesis
    proof (cases "p = m")
      case True
      with o(2) lt have "c + step_cost cur m < cp" by simp
      then show ?thesis using o True False by (simp add: relax_fields)
    next
      case pm: False
      then show ?thesis using o False by (simp add: relax_fields)
    qed
  qed
  show ?thesis
    unfolding inv_links_def
  proof (intro conjI allI impI)
    show "cost_so_far ?st start = Some 0" using d(1) ms by (simp add: relax_fields)
    show "came_from ?st start = Some None" using d(2) ms by (simp add: relax_fields)
    show "dom (came_from ?st) = dom (cost_so_far ?st)" using d(3) by (simp add: relax_fields)
    show "0 \<le> x" if "cost_so_far ?st n = Some x" for n x
    proof (cases "n = m")
      case True
      then show ?thesis using that c0 s(1) by (simp add: relax_fields)
    next
      case False
      then show ?thesis using that d(4)[of n x] by (simp add: relax_fields)
    qed
    show "n = start" if "came_from ?st n = Some None" for n
    proof (cases "n = m")
      case True
      then show ?thesis using that by (simp add: relax_fields)
    next
      case False
      then show ?thesis using that d(5)[of n] by (simp add: relax_fields)
    qed
    show "move gs ex offs p n" if "came_from ?st n = Some (Some p)" for n p
      using links[OF that] by simp
    show "\<exists>cp cn. cost_so_far ?st p = Some cp \<and> cost_so_far ?st n = Some cn \<and> cp + step_cost p n \<le> cn"
      if "came_from ?st n = Some (Some p)" for n p
      using links[OF that] by simp
  qed
qed

lemma relax_reach:
  assumes "inv_reach gs ex offs start st" and "cost_so_far st cur = Some c" and "move gs ex offs cur m"
  shows "inv_reach gs ex offs start (relax st goal cur m nc)"
proof -
  have "(move gs ex offs)\<^sup>*\<^sup>* start cur" using assms(1,2) by (auto simp: inv_reach_def)
  then have "(move gs ex offs)\<^sup>*\<^sup>* start m" using assms(3) by (rule rtranclp.rtrancl_into_rtrancl)
  then show ?thesis using assms(1) by (auto simp: inv_reach_def relax_fields)
qed

lemma relax_front:
  assumes inv: "inv_front goal start st"
    and lt: "\<forall>old. cost_so_far st m = Some old \<longrightarrow> nc < old"
  shows "inv_front goal start (relax st goal cur m nc)"
  unfolding inv_front_def
proof (intro conjI ballI)
  let ?st = "relax st goal cur m nc"
  show "sorted (frontier ?st)" using inv by (simp add: relax_fields inv_front_def)
  fix e assume e: "e \<in> set (frontier ?st)"
  show "\<exists>c. cost_so_far ?st (snd e) = Some c \<and> (snd e = start \<or> c + heuristic goal (snd e) \<le> fst e)"
  proof (cases "snd e = m")
    case True
    have "e = (nc + heuristic goal m, m) \<or> e \<in> set (frontier st)" using e by (simp add: relax_fields)
    then have "snd e = start \<or> nc + heuristic goal (snd e) \<le> fst e"
    proof
      assume "e = (nc + heuristic goal m, m)"
      then show ?thesis by simp
    next
      assume "e \<in> set (frontier st)"
      with inv obtain c where c: "cost_so_far st (snd e) = Some c"
        "snd e = start \<or> c + heuristic goal (snd e) \<le> fst e"
        unfolding inv_front_def by blast
      from c(1) True lt have "nc < c" by simp
      with c(2) show ?thesis by auto
    qed
    then show ?thesis using True by (simp add: relax_fields)
  next
    case False
    then have "e \<in> set (frontier st)" using e by (auto simp: relax_fields)
    with inv obtain c where c: "cost_so_far st (snd e) = Some c"
        "snd e = start \<or> c + heuristic goal (snd e) \<le> fst e"
      unfolding inv_front_def by blast
    then show ?thesis using False by (simp add: relax_fields)
  qed
qed

lemma relax_closed:
  assumes inv: "inv_closed gs ex offs goal X st"
    and lt: "\<forall>old. cost_so_far st m = Some old \<longrightarrow> nc < old"
  shows "inv_closed gs ex offs goal X (relax st goal cur m nc)"
  unfolding inv_closed_def
proof (intro allI impI)
  let ?st = "relax st goal cur m nc"
  fix n c assume n: "cost_so_far ?st n = Some c"
  show "n \<in> X \<or> (\<exists>pr. pr \<le> c + heuristic goal n \<and> (pr, n) \<in> set (frontier ?st)) \<or>
         (\<forall>k. move gs ex offs n k \<longrightarrow> (\<exists>ck. cost_so_far ?st k = Some ck \<and> ck \<le> c + step_cost n k))"
  proof (cases "n = m")
    case True
    then have "c = nc" using n by (simp add: relax_fields)
    then have "(c + heuristic goal n, n) \<in> set (frontier ?st)" using True by (simp add: relax_fields)
    then show ?thesis by blast
  next
    case False
    then have "cost_so_far st n = Some c" using n by (simp add: relax_fields)
    with inv have "n \<in> X \<or> (\<exists>pr. pr \<le> c + heuristic goal n \<and> (pr, n) \<in> set (frontier st)) \<or>
         (\<forall>k. move gs ex offs n k \<longrightarrow> (\<exists>ck. cost_so_far st k = Some ck \<and> ck \<le> c + step_cost n k))"
      unfolding inv_closed_def by blast
    then show ?thesis
    proof (elim disjE)
      assume "n \<in> X" then show ?thesis by simp
    next
      assume "\<exists>pr. pr \<le> c + heuristic goal n \<and> (pr, n) \<in> set (frontier st)"
      then show ?thesis by (auto simp: relax_fields)
    next
      assume r: "\<forall>k. move gs ex offs n k \<longrightarrow> (\<exists>ck. cost_so_far st k = Some ck \<and> ck \<le> c + step_cost n k)"
      have "\<exists>ck. cost_so_far ?st k = Some ck \<and> ck \<le> c + step_cost n k" if mv: "move gs ex offs n k" for k
      proof -
        from r mv obtain ck where ck: "cost_so_far st k = Some ck" "ck \<le> c + step_cost n k" by blast
        show ?thesis
        proof (cases "k = m")
          case True
          with ck(1) lt have "nc < ck" by simp
          with ck(2) True show ?thesis by (simp add: relax_fields)
        next
          case False
          with ck show ?thesis by (simp add: relax_fields)
        qed
      qed
      then show ?thesis by blast
    qed
  qed
qed

lemma grid_cells: "{n. in_grid gs n} = {0..<fst gs} \<times> {0..<snd gs}"
  by (auto simp: in_grid_def)

lemma finite_cells: "finite (cells gs start)"
  by (simp add: cells_def grid_cells)

lemma card_cells: "card (cells gs start) \<le> nat (fst gs) * nat (snd gs) + 1"
proof -
  have "card (cells gs start) \<le> Suc (card ({0..<fst gs} \<times> {0..<snd gs}))"
    unfolding cells_def grid_cells by (rule card_insert_le_m1) simp_all
  then show ?thesis by (simp add: card_cartesian_product)
qed

lemma finite_vals: "finite (vals K)"
  by (simp add: vals_def)

lemma is_len_vals:
  assumes "is_len c" and "c \<le> real K"
  shows "c \<in> vals K"
proof -
  from assms(1) obtain a b :: nat where c: "c = real a + real b * sqrt 2"
    by (auto simp: is_len_def)
  have s: "1 < sqrt 2" by simp
  have "real b \<le> real b * sqrt 2" using s by (simp add: mult_le_cancel_left1)
  then have "real a \<le> real K" "real b \<le> real K" using c assms(2) by linarith+
  then have "(a, b) \<in> {..K} \<times> {..K}" by simp
  then show ?thesis unfolding vals_def c by (rule rev_image_eqI) simp
qed

lemma is_len_step:
  assumes "is_len c" and "s = 1 \<or> s = sqrt 2"
  shows "is_len (c + s)"
proof -
  from assms(1) obtain a b :: nat where c: "c = real a + real b * sqrt 2"
    by (auto simp: is_len_def)
  from assms(2) show ?thesis
  proof
    assume "s = 1"
    then have "c + s = real (Suc a) + real b * sqrt 2" using c by simp
    then show ?thesis unfolding is_len_def by blast
  next
    assume "s = sqrt 2"
    then have "c + s = real a + real (Suc b) * sqrt 2" using c by (simp add: algebra_simps)
    then show ?thesis unfolding is_len_def by blast
  qed
qed

lemma rank_less:
  assumes "c' \<in> vals K" and "c' < c"
  shows "rank K c' < rank K c"
  unfolding rank_def
proof (rule psubset_card_mono)
  show "finite {v \<in> vals K. v < c}" using finite_vals by simp
  show "{v \<in> vals K. v < c'} \<subset> {v \<in> vals K. v < c}" using assms by auto
qed

lemma rank_less_card:
  assumes "c \<in> vals K"
  shows "rank K c < card (vals K)"
  unfolding rank_def
proof (rule psubset_card_mono)
  show "finite (vals K)" by (rule finite_vals)
  show "{v \<in> vals K. v < c} \<subset> vals K" using assms by auto
qed

lemma inv_boundD:
  assumes "inv_bound gs start st"
  shows "dom (cost_so_far st) \<subseteq> cells gs start"
    "\<And>n c. cost_so_far st n = Some c \<Longrightarrow> is_len c"
    "\<And>n c. cost_so_far st n = Some c \<Longrightarrow> c + 2 \<le> 2 * real (card (dom (cost_so_far st)))"
    "\<And>n c. cost_so_far st n = Some c \<Longrightarrow> c \<in> vals (cap gs)"
proof -
  show sub: "dom (cost_so_far st) \<subseteq> cells gs start" using assms unfolding inv_bound_def by blast
  show l: "is_len c" if "cost_so_far st n = Some c" for n c
    using assms that unfolding inv_bound_def by blast
  show b: "c + 2 \<le> 2 * real (card (dom (cost_so_far st)))" if "cost_so_far st n = Some c" for n c
    using assms that unfolding inv_bound_def by blast
  show "c \<in> vals (cap gs)" if h: "cost_so_far st n = Some c" for n c
  proof (rule is_len_vals[OF l[OF h]])
    have "card (dom (cost_so_far st)) \<le> card (cells gs start)"
      using sub finite_cells by (rule card_mono[rotated])
    also have "\<dots> \<le> nat (fst gs) * nat (snd gs) + 1" by (rule card_cells)
    finally have "2 * card (dom (cost_so_far st)) \<le> cap gs"
      unfolding cap_def by simp
    then have "real (2 * card (dom (cost_so_far st))) \<le> real (cap gs)"
      by (simp only: of_nat_le_iff)
    then have "2 * real (card (dom (cost_so_far st))) \<le> real (cap gs)"
      by simp
    with b[OF h] show "c \<le> real (cap gs)" by linarith
  qed
qed

lemma finite_dom_cost:
  assumes "inv_bound gs start st"
  shows "finite (dom (cost_so_far st))"
  using inv_boundD(1)[OF assms] finite_cells by (rule finite_subset)

lemma relax_bound:
  assumes inv: "inv_bound gs start st"
    and c: "cost_so_far st cur = Some c"
    and mv: "move gs ex offs cur m"
    and lt: "\<forall>old. cost_so_far st m = Some old \<longrightarrow> c + step_cost cur m < old"
  shows "inv_bound gs start (relax st goal cur m (c + step_cost cur m))"
proof -
  note d = inv_boundD[OF inv]
  note s = move_step[OF mv]
  let ?D = "dom (cost_so_far st)"
  let ?st = "relax st goal cur m (c + step_cost cur m)"
  have fin: "finite ?D" by (rule finite_dom_cost[OF inv])
  have dom': "dom (cost_so_far ?st) = insert m ?D" by (simp add: relax_fields)
  have mono: "card ?D \<le> card (insert m ?D)" using fin by (simp add: card_insert_le)
  have dirs: "(fst m - fst cur, snd m - snd cur) \<in> set directions" using mv by (simp add: move_def)
  have len: "is_len (c + step_cost cur m)"
    using d(2)[OF c] step_cost_dir[OF dirs] by (rule is_len_step)
  have bnd: "c + step_cost cur m + 2 \<le> 2 * real (card (insert m ?D))"
  proof (cases "cost_so_far st m")
    case None
    then have "m \<notin> ?D" by auto
    then have "card (insert m ?D) = Suc (card ?D)" using fin by simp
    then have "2 * real (card (insert m ?D)) = 2 * real (card ?D) + 2" by simp
    with d(3)[OF c] s(2) show ?thesis by linarith
  next
    case (Some old)
    with lt have "c + step_cost cur m < old" by simp
    moreover have "old + 2 \<le> 2 * real (card ?D)" using d(3)[OF Some] .
    moreover have "real (card ?D) \<le> real (card (insert m ?D))" using mono by simp
    ultimately show ?thesis by linarith
  qed
  show ?thesis
    unfolding inv_bound_def dom'
  proof (intro conjI allI impI)
    show "insert m ?D \<subseteq> cells gs start" using d(1) s(4) by (simp add: cells_def)
    show "is_len x" if "cost_so_far ?st n = Some x" for n x
    proof (cases "n = m")
      case True
      then show ?thesis using that len by (simp add: relax_fields)
    next
      case False
      then show ?thesis using that d(2)[of n x] by (simp add: relax_fields)
    qed
    show "x + 2 \<le> 2 * real (card (insert m ?D))" if "cost_so_far ?st n = Some x" for n x
    proof (cases "n = m")
      case True
      then show ?thesis using that bnd by (simp add: relax_fields)
    next
      case False
      then have "x + 2 \<le> 2 * real (card ?D)" using that d(3)[of n x] by (simp add: relax_fields)
      moreover have "real (card ?D) \<le> real (card (insert m ?D))" using mono by simp
      ultimately show ?thesis by linarith
    qed
  qed
qed

lemma relax_measure:
  assumes inv: "inv_bound gs start st"
    and inv': "inv_bound gs start (relax st goal cur m nc)"
    and mg: "in_grid gs m"
    and lt: "\<forall>old. cost_so_far st m = Some old \<longrightarrow> nc < old"
  shows "measure_of gs start (relax st goal cur m nc) < measure_of gs start st"
proof -
  let ?st = "relax st goal cur m nc"
  let ?C = "cells gs start"
  let ?K = "cap gs"
  have mC: "m \<in> ?C" using mg by (simp add: cells_def)
  have nc: "nc \<in> vals ?K"
    using inv_boundD(4)[OF inv', of m nc] by (simp add: relax_fields)
  have new: "rk ?K ?st m = rank ?K nc" by (simp add: rk_def relax_fields)
  have dec: "rk ?K ?st m < rk ?K st m"
  proof (cases "cost_so_far st m")
    case None
    then show ?thesis using rank_less_card[OF nc] new by (simp add: rk_def)
  next
    case (Some old)
    with lt have "nc < old" by simp
    from rank_less[OF nc this] show ?thesis using new Some by (simp add: rk_def)
  qed
  have same: "rk ?K ?st n = rk ?K st n" if "n \<in> ?C - {m}" for n
    using that by (simp add: rk_def relax_fields)
  have "(\<Sum>n\<in>?C. rk ?K ?st n) = rk ?K ?st m + (\<Sum>n\<in>?C - {m}. rk ?K ?st n)"
    using finite_cells mC by (rule sum.remove)
  also have "(\<Sum>n\<in>?C - {m}. rk ?K ?st n) = (\<Sum>n\<in>?C - {m}. rk ?K st n)"
    using same by (rule sum.cong[OF refl])
  finally have a: "(\<Sum>n\<in>?C. rk ?K ?st n) = rk ?K ?st m + (\<Sum>n\<in>?C - {m}. rk ?K st n)" .
  have b: "(\<Sum>n\<in>?C. rk ?K st n) = rk ?K st m + (\<Sum>n\<in>?C - {m}. rk ?K st n)"
    using finite_cells mC by (rule sum.remove)
  show ?thesis
    unfolding measure_of_def a b using dec by (simp add: relax_fields)
qed

lemma visit_step:
  assumes inv: "inv_all gs ex offs goal start X st"
    and c: "cost_so_far st cur = Some c"
    and d: "d \<in> set directions"
  shows "\<exists>st'. visit gs ex offs goal cur d st = Inr st' \<and>
               inv_all gs ex offs goal start X st' \<and>
               measure_of gs start st' \<le> measure_of gs start st \<and>
               (\<forall>n c0. cost_so_far st n = Some c0 \<longrightarrow> (\<exists>c1. cost_so_far st' n = Some c1 \<and> c1 \<le> c0)) \<and>
               cost_so_far st' cur = Some c \<and>
               (ok gs ex offs (fst cur + fst d, snd cur + snd d) \<longrightarrow>
                  (\<exists>cm. cost_so_far st' (fst cur + fst d, snd cur + snd d) = Some cm \<and>
                        cm \<le> c + step_cost cur (fst cur + fst d, snd cur + snd d)))"
proof -
  let ?m = "(fst cur + fst d, snd cur + snd d)"
  let ?nc = "c + step_cost cur ?m"
  from visit_cases[OF c d, of gs ex offs goal]
  show ?thesis
  proof
    assume a: "visit gs ex offs goal cur d st = Inr st \<and>
            (ok gs ex offs ?m \<longrightarrow> (\<exists>old. cost_so_far st ?m = Some old \<and> old \<le> ?nc))"
    with inv c show ?thesis by auto
  next
    assume a: "move gs ex offs cur ?m \<and>
          (\<forall>old. cost_so_far st ?m = Some old \<longrightarrow> ?nc < old) \<and>
          visit gs ex offs goal cur d st = Inr (relax st goal cur ?m ?nc)"
    then have mv: "move gs ex offs cur ?m"
      and lt: "\<forall>old. cost_so_far st ?m = Some old \<longrightarrow> ?nc < old"
      and v: "visit gs ex offs goal cur d st = Inr (relax st goal cur ?m ?nc)"
      by simp_all
    let ?st = "relax st goal cur ?m ?nc"
    from inv have i: "inv_links gs ex offs start st" "inv_reach gs ex offs start st"
      "inv_front goal start st" "inv_closed gs ex offs goal X st" "inv_bound gs start st"
      by (simp_all add: inv_all_def)
    have b': "inv_bound gs start ?st" by (rule relax_bound[OF i(5) c mv lt])
    have "inv_all gs ex offs goal start X ?st"
      unfolding inv_all_def
      using relax_links[OF i(1) c mv lt] relax_reach[OF i(2) c mv] relax_front[OF i(3) lt]
        relax_closed[OF i(4) lt] b'
      by blast
    moreover have "measure_of gs start ?st < measure_of gs start st"
      by (rule relax_measure[OF i(5) b' move_step(4)[OF mv] lt])
    moreover have "\<exists>c1. cost_so_far ?st n = Some c1 \<and> c1 \<le> c0" if "cost_so_far st n = Some c0" for n c0
    proof (cases "n = ?m")
      case True
      with that lt have "?nc < c0" by simp
      then show ?thesis using True by (simp add: relax_fields)
    next
      case False
      then show ?thesis using that by (simp add: relax_fields)
    qed
    moreover have "cost_so_far ?st cur = Some c" using c move_step(3)[OF mv] by (simp add: relax_fields)
    moreover have "cost_so_far ?st ?m = Some ?nc" by (simp add: relax_fields)
    ultimately show ?thesis using v by auto
  qed
qed

lemma visit_mono:
  assumes "visit gs ex offs goal cur d st = Inr st'" and "cost_so_far st n = Some c0"
  shows "\<exists>c1. cost_so_far st' n = Some c1 \<and> c1 \<le> c0"
proof -
  let ?m = "(fst cur + fst d, snd cur + snd d)"
  from assms(1) have "st' = st \<or>
      (\<exists>nc pr. (case cost_so_far st ?m of None \<Rightarrow> True | Some old \<Rightarrow> nc < old) \<and>
         cost_so_far st' = (cost_so_far st)(?m \<mapsto> nc))"
    unfolding visit_def Let_def by (auto split: if_splits option.splits)
  then show ?thesis
  proof
    assume "st' = st" then show ?thesis using assms(2) by simp
  next
    assume "\<exists>nc pr. (case cost_so_far st ?m of None \<Rightarrow> True | Some old \<Rightarrow> nc < old) \<and>
         cost_so_far st' = (cost_so_far st)(?m \<mapsto> nc)"
    then obtain nc where nc: "case cost_so_far st ?m of None \<Rightarrow> True | Some old \<Rightarrow> nc < old"
      "cost_so_far st' = (cost_so_far st)(?m \<mapsto> nc)" by blast
    show ?thesis
    proof (cases "n = ?m")
      case True
      with nc assms(2) show ?thesis by simp
    next
      case False
      with nc assms(2) show ?thesis by simp
    qed
  qed
qed

lemma visit_all_mono:
  assumes "visit_all gs ex offs goal cur ds st = Inr st'" and "cost_so_far st n = Some c0"
  shows "\<exists>c1. cost_so_far st' n = Some c1 \<and> c1 \<le> c0"
  using assms
proof (induction ds arbitrary: st c0)
  case Nil
  then show ?case by simp
next
  case (Cons d ds)
  from Cons.prems(1) obtain st1 where v: "visit gs ex offs goal cur d st = Inr st1"
    and v2: "visit_all gs ex offs goal cur ds st1 = Inr st'"
    by (auto split: sum.splits)
  from visit_mono[OF v Cons.prems(2)] obtain c1 where c1: "cost_so_far st1 n = Some c1" "c1 \<le> c0" by blast
  from Cons.IH[OF v2 c1(1)] c1(2) show ?case by force
qed

lemma visit_all_steps:
  assumes "inv_all gs ex offs goal start X st"
    and "cost_so_far st cur = Some c"
    and "set ds \<subseteq> set directions"
  shows "\<exists>st'. visit_all gs ex offs goal cur ds st = Inr st' \<and>
               inv_all gs ex offs goal start X st' \<and>
               measure_of gs start st' \<le> measure_of gs start st \<and>
               cost_so_far st' cur = Some c \<and>
               (\<forall>d\<in>set ds. ok gs ex offs (fst cur + fst d, snd cur + snd d) \<longrightarrow>
                  (\<exists>cm. cost_so_far st' (fst cur + fst d, snd cur + snd d) = Some cm \<and>
                        cm \<le> c + step_cost cur (fst cur + fst d, snd cur + snd d)))"
  using assms
proof (induction ds arbitrary: st)
  case Nil
  then show ?case by simp
next
  case (Cons d ds)
  have d: "d \<in> set directions" and ds: "set ds \<subseteq> set directions" using Cons.prems(3) by simp_all
  from visit_step[OF Cons.prems(1,2) d] obtain st1 where
    v: "visit gs ex offs goal cur d st = Inr st1"
    and i1: "inv_all gs ex offs goal start X st1"
    and m1: "measure_of gs start st1 \<le> measure_of gs start st"
    and c1: "cost_so_far st1 cur = Some c"
    and n1: "ok gs ex offs (fst cur + fst d, snd cur + snd d) \<longrightarrow>
                  (\<exists>cm. cost_so_far st1 (fst cur + fst d, snd cur + snd d) = Some cm \<and>
                        cm \<le> c + step_cost cur (fst cur + fst d, snd cur + snd d))"
    by blast
  have "\<exists>st2. visit_all gs ex offs goal cur ds st1 = Inr st2 \<and>
               inv_all gs ex offs goal start X st2 \<and>
               measure_of gs start st2 \<le> measure_of gs start st1 \<and>
               cost_so_far st2 cur = Some c \<and>
               (\<forall>d\<in>set ds. ok gs ex offs (fst cur + fst d, snd cur + snd d) \<longrightarrow>
                  (\<exists>cm. cost_so_far st2 (fst cur + fst d, snd cur + snd d) = Some cm \<and>
                        cm \<le> c + step_cost cur (fst cur + fst d, snd cur + snd d)))"
    by (rule Cons.IH[OF i1 c1 ds])
  then obtain st2 where
    v2: "visit_all gs ex offs goal cur ds st1 = Inr st2"
    and i2: "inv_all gs ex offs goal start X st2"
    and m2: "measure_of gs start st2 \<le> measure_of gs start st1"
    and c2: "cost_so_far st2 cur = Some c"
    and n2: "\<forall>d\<in>set ds. ok gs ex offs (fst cur + fst d, snd cur + snd d) \<longrightarrow>
                  (\<exists>cm. cost_so_far st2 (fst cur + fst d, snd cur + snd d) = Some cm \<and>
                        cm \<le> c + step_cost cur (fst cur + fst d, snd cur + snd d))"
    by blast
  have mono: "\<exists>c1. cost_so_far st2 n = Some c1 \<and> c1 \<le> c0" if "cost_so_far st1 n = Some c0" for n c0
    using visit_all_mono[OF v2 that] .
  have "visit_all gs ex offs goal cur (d # ds) st = Inr st2" using v v2 by simp
  moreover have "measure_of gs start st2 \<le> measure_of gs start st" using m1 m2 by simp
  moreover have "\<forall>e\<in>set (d # ds). ok gs ex offs (fst cur + fst e, snd cur + snd e) \<longrightarrow>
                  (\<exists>cm. cost_so_far st2 (fst cur + fst e, snd cur + snd e) = Some cm \<and>
                        cm \<le> c + step_cost cur (fst cur + fst e, snd cur + snd e))"
  proof
    fix e assume e: "e \<in> set (d # ds)"
    show "ok gs ex offs (fst cur + fst e, snd cur + snd e) \<longrightarrow>
                  (\<exists>cm. cost_so_far st2 (fst cur + fst e, snd cur + snd e) = Some cm \<and>
                        cm \<le> c + step_cost cur (fst cur + fst e, snd cur + snd e))"
    proof (cases "e \<in> set ds")
      case True
      with n2 show ?thesis by blast
    next
      case False
      with e have ed: "e = d" by simp
      show ?thesis
      proof
        assume "ok gs ex offs (fst cur + fst e, snd cur + snd e)"
        with n1 ed obtain cm where cm: "cost_so_far st1 (fst cur + fst e, snd cur + snd e) = Some cm"
          "cm \<le> c + step_cost cur (fst cur + fst e, snd cur + snd e)" by blast
        from mono[OF cm(1)] cm(2) show "\<exists>cm. cost_so_far st2 (fst cur + fst e, snd cur + snd e) = Some cm \<and>
                        cm \<le> c + step_cost cur (fst cur + fst e, snd cur + snd e)"
          by force
      qed
    qed
  qed
  ultimately show ?case using i2 c2 by blast
qed

lemma path_len_snoc:
  "xs \<noteq> [] \<Longrightarrow> path_len (xs @ [z]) = path_len xs + step_cost (last xs) z"
  by (induction xs rule: path_len.induct) simp_all

lemma step_cost_nonneg: "0 \<le> step_cost a b"
  by (simp add: step_cost_def hypot_def)

lemma path_len_nonneg: "0 \<le> path_len xs"
  by (induction xs rule: path_len.induct) (simp_all add: step_cost_nonneg)

lemma heuristic_triangle: "heuristic goal y \<le> step_cost y z + heuristic goal z"
proof -
  let ?a = "real_of_int (fst z - fst y)" and ?b = "real_of_int (snd z - snd y)"
  let ?c = "real_of_int (fst goal - fst z)" and ?d = "real_of_int (snd goal - snd z)"
  have e: "real_of_int (fst goal - fst y) = ?a + ?c" "real_of_int (snd goal - snd y) = ?b + ?d"
    by simp_all
  show ?thesis
    unfolding heuristic_def step_cost_def hypot_def e
    by (rule real_sqrt_sum_squares_triangle_ineq)
qed

lemma heuristic_self: "heuristic goal goal = 0"
  by (simp add: heuristic_def hypot_def)

lemma pop_inv:
  assumes inv: "inv_all gs ex offs goal start {} st" and f: "frontier st = item # rest"
  shows "inv_all gs ex offs goal start {snd item} (st\<lparr>frontier := rest\<rparr>)"
    "measure_of gs start (st\<lparr>frontier := rest\<rparr>) < measure_of gs start st"
    "\<exists>c. cost_so_far st (snd item) = Some c \<and> (snd item = start \<or> c + heuristic goal (snd item) \<le> fst item)"
    "\<forall>e \<in> set (frontier st). fst item \<le> fst e"
proof -
  from inv have i: "inv_links gs ex offs start st" "inv_reach gs ex offs start st"
      "inv_front goal start st" "inv_closed gs ex offs goal {} st" "inv_bound gs start st"
    by (simp_all add: inv_all_def)
  show "\<exists>c. cost_so_far st (snd item) = Some c \<and> (snd item = start \<or> c + heuristic goal (snd item) \<le> fst item)"
    using i(3) f unfolding inv_front_def by simp
  have srt: "sorted (item # rest)" using i(3) f by (simp add: inv_front_def)
  show "\<forall>e \<in> set (frontier st). fst item \<le> fst e"
  proof
    fix e assume "e \<in> set (frontier st)"
    then have "item \<le> e" using srt f by auto
    then show "fst item \<le> fst e" by (auto simp: less_eq_prod_def)
  qed
  show "measure_of gs start (st\<lparr>frontier := rest\<rparr>) < measure_of gs start st"
    using f by (simp add: measure_of_def rk_def)
  have "inv_links gs ex offs start (st\<lparr>frontier := rest\<rparr>)" using i(1) by (simp add: inv_links_def)
  moreover have "inv_reach gs ex offs start (st\<lparr>frontier := rest\<rparr>)" using i(2) by (simp add: inv_reach_def)
  moreover have "inv_front goal start (st\<lparr>frontier := rest\<rparr>)" using i(3) f by (simp add: inv_front_def)
  moreover have "inv_bound gs start (st\<lparr>frontier := rest\<rparr>)" using i(5) by (simp add: inv_bound_def)
  moreover have "inv_closed gs ex offs goal {snd item} (st\<lparr>frontier := rest\<rparr>)"
    unfolding inv_closed_def
  proof (intro allI impI)
    fix n c assume "cost_so_far (st\<lparr>frontier := rest\<rparr>) n = Some c"
    then have n: "cost_so_far st n = Some c" by simp
    with i(4) have "n \<in> {} \<or> (\<exists>pr. pr \<le> c + heuristic goal n \<and> (pr, n) \<in> set (frontier st)) \<or>
         (\<forall>m. move gs ex offs n m \<longrightarrow> (\<exists>cm. cost_so_far st m = Some cm \<and> cm \<le> c + step_cost n m))"
      unfolding inv_closed_def by blast
    then show "n \<in> {snd item} \<or>
         (\<exists>pr. pr \<le> c + heuristic goal n \<and> (pr, n) \<in> set (frontier (st\<lparr>frontier := rest\<rparr>))) \<or>
         (\<forall>m. move gs ex offs n m \<longrightarrow>
              (\<exists>cm. cost_so_far (st\<lparr>frontier := rest\<rparr>) m = Some cm \<and> cm \<le> c + step_cost n m))"
      using f by auto
  qed
  ultimately show "inv_all gs ex offs goal start {snd item} (st\<lparr>frontier := rest\<rparr>)"
    by (simp add: inv_all_def)
qed

lemma close_current:
  assumes inv: "inv_all gs ex offs goal start {cur} st"
    and c: "cost_so_far st cur = Some c"
    and all: "\<forall>d\<in>set directions. ok gs ex offs (fst cur + fst d, snd cur + snd d) \<longrightarrow>
                  (\<exists>cm. cost_so_far st (fst cur + fst d, snd cur + snd d) = Some cm \<and>
                        cm \<le> c + step_cost cur (fst cur + fst d, snd cur + snd d))"
  shows "inv_all gs ex offs goal start {} st"
proof -
  have cl: "\<exists>cm. cost_so_far st m = Some cm \<and> cm \<le> c + step_cost cur m" if mv: "move gs ex offs cur m" for m
  proof -
    let ?d = "(fst m - fst cur, snd m - snd cur)"
    have d: "?d \<in> set directions" and o: "ok gs ex offs m" using mv by (simp_all add: move_def)
    have e: "(fst cur + fst ?d, snd cur + snd ?d) = m" by simp
    from all d have "ok gs ex offs (fst cur + fst ?d, snd cur + snd ?d) \<longrightarrow>
                  (\<exists>cm. cost_so_far st (fst cur + fst ?d, snd cur + snd ?d) = Some cm \<and>
                        cm \<le> c + step_cost cur (fst cur + fst ?d, snd cur + snd ?d))"
      by (rule bspec)
    then show ?thesis unfolding e using o by simp
  qed
  have "inv_closed gs ex offs goal {} st"
    unfolding inv_closed_def
  proof (intro allI impI)
    fix n cn assume n: "cost_so_far st n = Some cn"
    from inv have "inv_closed gs ex offs goal {cur} st" by (simp add: inv_all_def)
    with n have "n \<in> {cur} \<or> (\<exists>pr. pr \<le> cn + heuristic goal n \<and> (pr, n) \<in> set (frontier st)) \<or>
         (\<forall>m. move gs ex offs n m \<longrightarrow> (\<exists>cm. cost_so_far st m = Some cm \<and> cm \<le> cn + step_cost n m))"
      unfolding inv_closed_def by blast
    then show "n \<in> {} \<or> (\<exists>pr. pr \<le> cn + heuristic goal n \<and> (pr, n) \<in> set (frontier st)) \<or>
         (\<forall>m. move gs ex offs n m \<longrightarrow> (\<exists>cm. cost_so_far st m = Some cm \<and> cm \<le> cn + step_cost n m))"
    proof (elim disjE)
      assume "n \<in> {cur}"
      then have "n = cur" by simp
      with n c have "cn = c" by simp
      with cl \<open>n = cur\<close> show ?thesis by blast
    qed blast+
  qed
  with inv show ?thesis by (simp add: inv_all_def)
qed

lemma route_progress:
  assumes inv: "inv_all gs ex offs goal start {} st"
    and r: "is_route gs ex offs start z xs"
  shows "(\<exists>c. cost_so_far st z = Some c \<and> c \<le> path_len xs) \<or>
         (\<exists>e\<in>set (frontier st). fst e \<le> path_len xs + heuristic goal z)"
  using r
proof (induction xs arbitrary: z rule: rev_induct)
  case Nil
  then show ?case by (simp add: is_route_def)
next
  case (snoc y xs)
  from snoc.prems have z: "z = y" by (simp add: is_route_def)
  show ?case
  proof (cases "xs = []")
    case True
    with snoc.prems have "y = start" by (simp add: is_route_def)
    moreover from inv have "inv_links gs ex offs start st" by (simp add: inv_all_def)
    ultimately have "cost_so_far st z = Some 0" using z inv_linksD(1) by simp
    then show ?thesis using True by simp
  next
    case False
    let ?w = "last xs"
    from snoc.prems False have rt: "is_route gs ex offs start ?w xs" and mv: "move gs ex offs ?w y"
      by (auto simp: is_route_def successively_append_iff)
    have pl: "path_len (xs @ [y]) = path_len xs + step_cost ?w y" using False by (rule path_len_snoc)
    have tri: "heuristic goal ?w \<le> step_cost ?w y + heuristic goal y" by (rule heuristic_triangle)
    from snoc.IH[OF rt] show ?thesis
    proof
      assume "\<exists>e\<in>set (frontier st). fst e \<le> path_len xs + heuristic goal ?w"
      then obtain e where e: "e \<in> set (frontier st)" "fst e \<le> path_len xs + heuristic goal ?w" by blast
      have "fst e \<le> path_len (xs @ [y]) + heuristic goal z" using e(2) pl tri unfolding z by linarith
      with e(1) show ?thesis by blast
    next
      assume "\<exists>c. cost_so_far st ?w = Some c \<and> c \<le> path_len xs"
      then obtain c where c: "cost_so_far st ?w = Some c" "c \<le> path_len xs" by blast
      from inv have "inv_closed gs ex offs goal {} st" by (simp add: inv_all_def)
      with c(1) have "(\<exists>pr. pr \<le> c + heuristic goal ?w \<and> (pr, ?w) \<in> set (frontier st)) \<or>
         (\<forall>m. move gs ex offs ?w m \<longrightarrow> (\<exists>cm. cost_so_far st m = Some cm \<and> cm \<le> c + step_cost ?w m))"
        unfolding inv_closed_def by blast
      then show ?thesis
      proof
        assume "\<exists>pr. pr \<le> c + heuristic goal ?w \<and> (pr, ?w) \<in> set (frontier st)"
        then obtain pr where pr: "pr \<le> c + heuristic goal ?w" "(pr, ?w) \<in> set (frontier st)" by blast
        have "fst (pr, ?w) \<le> path_len (xs @ [y]) + heuristic goal z"
          using pr(1) c(2) pl tri unfolding z by simp
        with pr(2) show ?thesis by blast
      next
        assume "\<forall>m. move gs ex offs ?w m \<longrightarrow> (\<exists>cm. cost_so_far st m = Some cm \<and> cm \<le> c + step_cost ?w m)"
        with mv obtain cm where "cost_so_far st y = Some cm" "cm \<le> c + step_cost ?w y" by blast
        then show ?thesis using c(2) pl unfolding z by auto
      qed
    qed
  qed
qed

lemma reach_route:
  assumes "(move gs ex offs)\<^sup>*\<^sup>* a b"
  shows "\<exists>xs. is_route gs ex offs a b xs"
  using assms
proof (induction rule: rtranclp_induct)
  case base
  have "is_route gs ex offs a a [a]" by (simp add: is_route_def)
  then show ?case by blast
next
  case (step y z)
  then obtain xs where "is_route gs ex offs a y xs" by blast
  with step.hyps(2) have "is_route gs ex offs a z (xs @ [z])"
    by (auto simp: is_route_def successively_append_iff)
  then show ?case by blast
qed

lemma a_star_loop_total:
  assumes "inv_all gs ex offs goal start {} st"
  shows "\<exists>st'. a_star_loop gs ex offs goal st = Some (Inr st') \<and>
               inv_links gs ex offs start st' \<and> inv_reach gs ex offs start st' \<and>
               optimal_at gs ex offs goal start st'"
  using assms
proof (induction "measure_of gs start st" arbitrary: st rule: less_induct)
  case less
  note inv = less.prems
  from inv have i: "inv_links gs ex offs start st" "inv_reach gs ex offs start st"
    by (simp_all add: inv_all_def)
  show ?case
  proof (cases "frontier st")
    case Nil
    then have "a_star_loop gs ex offs goal st = Some (Inr st)"
      by (subst a_star_loop.simps) simp
    moreover have "optimal_at gs ex offs goal start st"
      unfolding optimal_at_def using route_progress[OF inv] Nil by fastforce
    ultimately show ?thesis using i by blast
  next
    case (Cons item rest)
    let ?st1 = "st\<lparr>frontier := rest\<rparr>"
    note p = pop_inv[OF inv Cons]
    from p(3) obtain c where c: "cost_so_far st (snd item) = Some c"
      "snd item = start \<or> c + heuristic goal (snd item) \<le> fst item" by blast
    show ?thesis
    proof (cases "snd item = goal")
      case True
      then have "a_star_loop gs ex offs goal st = Some (Inr ?st1)"
        using Cons by (subst a_star_loop.simps) (simp add: Let_def)
      moreover have "inv_links gs ex offs start ?st1" "inv_reach gs ex offs start ?st1"
        using p(1) by (simp_all add: inv_all_def)
      moreover have "optimal_at gs ex offs goal start ?st1"
        unfolding optimal_at_def
      proof (intro allI impI)
        fix xs assume r: "is_route gs ex offs start goal xs"
        have c0: "snd item = start \<Longrightarrow> c = 0" using c(1) inv_linksD(1)[OF i(1)] by simp
        from route_progress[OF inv r]
        have "c \<le> path_len xs"
        proof
          assume "\<exists>c'. cost_so_far st goal = Some c' \<and> c' \<le> path_len xs"
          with c(1) True show ?thesis by simp
        next
          assume "\<exists>e\<in>set (frontier st). fst e \<le> path_len xs + heuristic goal goal"
          then obtain e where e: "e \<in> set (frontier st)" "fst e \<le> path_len xs" 
            by (auto simp: heuristic_self)
          from p(4) e(1) have le: "fst item \<le> fst e" by blast
          from c(2) show ?thesis
          proof
            assume "snd item = start"
            then show ?thesis using c0 path_len_nonneg[of xs] by simp
          next
            assume "c + heuristic goal (snd item) \<le> fst item"
            then have "c \<le> fst item" using True by (simp add: heuristic_self)
            with le e(2) show ?thesis by linarith
          qed
        qed
        then show "\<exists>c. cost_so_far ?st1 goal = Some c \<and> c \<le> path_len xs"
          using c(1) True by simp
      qed
      ultimately show ?thesis by blast
    next
      case False
      have cur: "cost_so_far ?st1 (snd item) = Some c" using c(1) by simp
      from visit_all_steps[OF p(1) cur subset_refl] obtain st2 where
        v: "visit_all gs ex offs goal (snd item) directions ?st1 = Inr st2"
        and i2: "inv_all gs ex offs goal start {snd item} st2"
        and m2: "measure_of gs start st2 \<le> measure_of gs start ?st1"
        and c2: "cost_so_far st2 (snd item) = Some c"
        and n2: "\<forall>d\<in>set directions. ok gs ex offs (fst (snd item) + fst d, snd (snd item) + snd d) \<longrightarrow>
                  (\<exists>cm. cost_so_far st2 (fst (snd item) + fst d, snd (snd item) + snd d) = Some cm \<and>
                        cm \<le> c + step_cost (snd item) (fst (snd item) + fst d, snd (snd item) + snd d))"
        by blast
      have inv2: "inv_all gs ex offs goal start {} st2" by (rule close_current[OF i2 c2 n2])
      have lt: "measure_of gs start st2 < measure_of gs start st" using m2 p(2) by simp
      have "a_star_loop gs ex offs goal st = a_star_loop gs ex offs goal st2"
        using Cons False v by (subst a_star_loop.simps) (simp add: Let_def)
      with less.hyps[OF lt inv2] show ?thesis by simp
    qed
  qed
qed

lemma heuristic_nonneg: "0 \<le> heuristic a b"
  by (simp add: heuristic_def hypot_def)

lemma init_inv:
  "inv_all gs ex offs goal start {}
     \<lparr> frontier = [(0, start)], came_from = [start \<mapsto> None], cost_so_far = [start \<mapsto> 0] \<rparr>"
proof -
  let ?st = "\<lparr> frontier = [(0, start)], came_from = [start \<mapsto> None], cost_so_far = [start \<mapsto> 0 :: real] \<rparr>"
  have "inv_links gs ex offs start ?st"
    unfolding inv_links_def by (simp split: if_splits)
  moreover have "inv_reach gs ex offs start ?st"
    unfolding inv_reach_def by (simp split: if_splits)
  moreover have "inv_front goal start ?st"
    unfolding inv_front_def by simp
  moreover have "inv_closed gs ex offs goal {} ?st"
    unfolding inv_closed_def
  proof (intro allI impI)
    fix n c assume "cost_so_far ?st n = Some c"
    then have "n = start" "c = 0" by (simp_all split: if_splits)
    then have "0 \<le> c + heuristic goal n \<and> (0, n) \<in> set (frontier ?st)"
      using heuristic_nonneg[of goal n] by simp
    then show "n \<in> {} \<or> (\<exists>pr. pr \<le> c + heuristic goal n \<and> (pr, n) \<in> set (frontier ?st)) \<or>
         (\<forall>m. move gs ex offs n m \<longrightarrow> (\<exists>cm. cost_so_far ?st m = Some cm \<and> cm \<le> c + step_cost n m))"
      by blast
  qed
  moreover have "inv_bound gs start ?st"
  proof -
    have "is_len 0" unfolding is_len_def by (rule exI[of _ 0], rule exI[of _ 0]) simp
    then show ?thesis unfolding inv_bound_def by (simp add: cells_def split: if_splits)
  qed
  ultimately show ?thesis by (simp add: inv_all_def)
qed

lemma walk_back_chain:
  assumes inv: "inv_links gs ex offs start st" and c: "cost_so_far st n = Some c"
  shows "\<exists>ns. walk_back (came_from st) (Some n) p = Some (p @ map to_float ns) \<and>
              is_route gs ex offs start n (rev ns) \<and> path_len (rev ns) \<le> c \<and>
              (n = start \<longrightarrow> ns = [n])"
  using c
proof (induction "nat \<lfloor>c\<rfloor>" arbitrary: n c p rule: less_induct)
  case less
  note d = inv_linksD[OF inv]
  have c0: "0 \<le> c" using d(4)[OF less.prems] .
  from less.prems have "n \<in> dom (came_from st)" using d(3) by auto
  then obtain par where par: "came_from st n = Some par" by auto
  show ?case
  proof (cases par)
    case None
    with par have ns: "n = start" using d(5) by simp
    have "walk_back (came_from st) (Some n) p = Some (p @ map to_float [n])"
      using par None by (subst walk_back.simps, simp, subst walk_back.simps, simp)
    moreover have "is_route gs ex offs start n (rev [n])" using ns by (simp add: is_route_def)
    moreover have "path_len (rev [n]) \<le> c" using c0 by simp
    ultimately show ?thesis by blast
  next
    case (Some q)
    with par have pq: "came_from st n = Some (Some q)" by simp
    from d(6)[OF pq] less.prems obtain cq where mv: "move gs ex offs q n"
      and cq: "cost_so_far st q = Some cq" and le: "cq + step_cost q n \<le> c"
      by auto
    have nst: "n \<noteq> start" using pq d(2) by auto
    have "cq + 1 \<le> c" using le move_step(1)[OF mv] by linarith
    moreover have "0 \<le> cq" using d(4)[OF cq] .
    ultimately have "nat \<lfloor>cq\<rfloor> < nat \<lfloor>c\<rfloor>" by linarith
    from less.hyps[OF this cq, of "p @ [to_float n]"] obtain ns where
      w: "walk_back (came_from st) (Some q) (p @ [to_float n]) = Some ((p @ [to_float n]) @ map to_float ns)"
      and r: "is_route gs ex offs start q (rev ns)" and pl: "path_len (rev ns) \<le> cq"
      by blast
    have "walk_back (came_from st) (Some n) p = Some (p @ map to_float (n # ns))"
      using pq w by (subst walk_back.simps) simp
    moreover have "is_route gs ex offs start n (rev (n # ns))"
      using r mv by (auto simp: is_route_def successively_append_iff)
    moreover have "path_len (rev (n # ns)) \<le> c"
    proof -
      have ne: "rev ns \<noteq> []" and l: "last (rev ns) = q" using r by (simp_all add: is_route_def)
      have "path_len (rev (n # ns)) = path_len (rev ns) + step_cost q n"
        using path_len_snoc[OF ne, of n] l by simp
      with pl le show ?thesis by linarith
    qed
    ultimately show ?thesis using nst by blast
  qed
qed

lemma a_star_KeyError:
  assumes "relative_offsets (initial_positions g) (center_id g) = Inl e"
  shows "a_star g start goal obs gs =
           Some (Inl e, g\<lparr>expanded_obstacles :=
                   expand (expanded_obstacles g) obs (current_shape_type g) (safety_margin g) gs\<rparr>)"
  using assms by (simp add: a_star_def Let_def)

lemma a_star_total:
  assumes ro: "relative_offsets (initial_positions g) (center_id g) = Inr ro"
    and ex: "ex = expand (expanded_obstacles g) obs (current_shape_type g) (safety_margin g) gs"
    and offs: "offs = map snd ro"
  shows "\<exists>cs. a_star g start goal obs gs = Some (Inr (map to_float cs), g\<lparr>expanded_obstacles := ex\<rparr>) \<and>
              (if (move gs ex offs)\<^sup>*\<^sup>* start goal
               then is_route gs ex offs start goal cs \<and>
                    (\<forall>xs. is_route gs ex offs start goal xs \<longrightarrow> path_len cs \<le> path_len xs) \<and>
                    (start = goal \<longrightarrow> cs = [start])
               else cs = [])"
proof -
  let ?st0 = "\<lparr> frontier = [(0, start)], came_from = [start \<mapsto> None], cost_so_far = [start \<mapsto> 0 :: real] \<rparr>"
  from a_star_loop_total[OF init_inv, of gs ex offs goal start] obtain st where
    l: "a_star_loop gs ex offs goal ?st0 = Some (Inr st)"
    and il: "inv_links gs ex offs start st" and ir: "inv_reach gs ex offs start st"
    and opt: "optimal_at gs ex offs goal start st"
    by blast
  have unf: "a_star g start goal obs gs =
      (case walk_back (came_from st) (Some goal) [] of
         None \<Rightarrow> None
       | Some p \<Rightarrow> Some (Inr (rev p), g\<lparr>expanded_obstacles := ex\<rparr>))"
    using ro l by (simp add: a_star_def Let_def ex[symmetric] offs[symmetric])
  show ?thesis
  proof (cases "cost_so_far st goal")
    case None
    then have "came_from st goal = None" using inv_linksD(3)[OF il] by auto
    then have "walk_back (came_from st) (Some goal) [] = Some []"
      by (subst walk_back.simps) simp
    then have "a_star g start goal obs gs = Some (Inr (map to_float []), g\<lparr>expanded_obstacles := ex\<rparr>)"
      using unf by simp
    moreover have "\<not> (move gs ex offs)\<^sup>*\<^sup>* start goal"
    proof
      assume "(move gs ex offs)\<^sup>*\<^sup>* start goal"
      then obtain xs where "is_route gs ex offs start goal xs" using reach_route by blast
      with opt None show False by (auto simp: optimal_at_def)
    qed
    ultimately show ?thesis by (intro exI[of _ "[]"]) simp
  next
    case (Some c)
    from walk_back_chain[OF il Some, of "[]"] obtain ns where
      w: "walk_back (came_from st) (Some goal) [] = Some (map to_float ns)"
      and r: "is_route gs ex offs start goal (rev ns)" and pl: "path_len (rev ns) \<le> c"
      and s: "goal = start \<longrightarrow> ns = [goal]"
      by auto
    have "a_star g start goal obs gs = Some (Inr (map to_float (rev ns)), g\<lparr>expanded_obstacles := ex\<rparr>)"
      using unf w by (simp add: rev_map)
    moreover have "(move gs ex offs)\<^sup>*\<^sup>* start goal" using ir Some by (auto simp: inv_reach_def)
    moreover have "path_len (rev ns) \<le> path_len xs" if "is_route gs ex offs start goal xs" for xs
    proof -
      from opt that obtain c' where "cost_so_far st goal = Some c'" "c' \<le> path_len xs"
        by (auto simp: optimal_at_def)
      with Some pl show ?thesis by simp
    qed
    moreover have "start = goal \<longrightarrow> rev ns = [start]" using s by auto
    ultimately show ?thesis using r by (intro exI[of _ "rev ns"]) simp
  qed
qed

section \<open>Planning calls\<close>

lemma dog_offsets:
  "relative_offsets (initial_positions initial_robot) (center_id initial_robot)
     = Inr (map (\<lambda>(k, v). (k, vsub v (1, 1))) (shape_positions get_dog_shape))"
  by (simp add: relative_offsets_def initial_robot_def get_dog_shape_def)


lemma expand_nil: "expand old [] k m gs = {}"
  by (simp add: expand_def)

lemma initial_robot_expanded: "initial_robot\<lparr>expanded_obstacles := {}\<rparr> = initial_robot"
  by (simp add: initial_robot_def)




lemma dog_invalid_00:
  "\<not> is_valid_position (40, 40) {} (map snd (map (\<lambda>(k, v). (k, vsub v (1, 1))) (shape_positions get_dog_shape))) (0, 0)"
  by (simp add: get_dog_shape_def vsub_def vadd_def py_round_def in_grid_def)










lemma reach_ok:
  assumes "(move gs ex offs)\<^sup>*\<^sup>* a b" and "a \<noteq> b"
  shows "ok gs ex offs b"
  using assms by (cases rule: rtranclp.cases) (auto simp: move_def)


lemma successively_weaken:
  "successively R xs \<Longrightarrow> (\<And>a b. R a b \<Longrightarrow> Q a b) \<Longrightarrow> successively Q xs"
  by (induction xs rule: induct_list012) auto









text \<open>
  Claim C5. Whatever \<open>expanded_obstacles\<close> held before, after a call of \<open>a_star\<close> it is
  exactly the set of cells in the grid that lie within Chebyshev distance \<open>safety_margin\<close>
  of an obstacle cell whose class blocks the active kind. The call returns, also when it
  raises for a missing center anchor, and obstacles that do not block add nothing.
\<close>
theorem a_star_rebuilds_inflation:
  "\<exists>r. a_star g start goal obs gs =
          Some (r, g\<lparr>expanded_obstacles :=
                     {n. in_grid gs n \<and>
                         (\<exists>oc \<in> set (map fst obs).
                             is_blocked obs (current_shape_type g) oc \<and>
                             \<bar>fst n - fst oc\<bar> \<le> safety_margin g \<and>
                             \<bar>snd n - snd oc\<bar> \<le> safety_margin g)}\<rparr>)"
proof (cases "relative_offsets (initial_positions g) (center_id g)")
  case (Inl e)
  from a_star_KeyError[OF Inl, of start goal obs gs] show ?thesis
    unfolding expand_eq by blast
next
  case (Inr ro)
  from a_star_total[OF Inr refl refl, of start goal obs gs] show ?thesis
    unfolding expand_eq by blast
qed

text \<open>
  Witness for C5: a stale cell (7, 7) is dropped, the box of the High Wall at (5, 5) is
  inflated, and the Low Wall at (9, 9), which does not block the dog, adds nothing.
\<close>
theorem a_star_rebuilds_inflation_witness:
  "\<exists>r g'. a_star (initial_robot\<lparr>expanded_obstacles := {(7, 7)}\<rparr>) (0, 0) (1, 1)
             [((5, 5), HighWall), ((9, 9), LowWall)] (40, 40) = Some (r, g') \<and>
          (4, 4) \<in> expanded_obstacles g' \<and> (8, 8) \<notin> expanded_obstacles g' \<and>
          (7, 7) \<notin> expanded_obstacles g'"
proof -
  from a_star_rebuilds_inflation[of "initial_robot\<lparr>expanded_obstacles := {(7, 7)}\<rparr>" "(0, 0)" "(1, 1)"
      "[((5, 5), HighWall), ((9, 9), LowWall)]" "(40, 40)"]
  obtain r where r: "a_star (initial_robot\<lparr>expanded_obstacles := {(7, 7)}\<rparr>) (0, 0) (1, 1)
             [((5, 5), HighWall), ((9, 9), LowWall)] (40, 40) =
      Some (r, initial_robot\<lparr>expanded_obstacles :=
                     {n. in_grid (40, 40) n \<and>
                         (\<exists>oc \<in> set (map fst [((5, 5), HighWall), ((9, 9), LowWall)]).
                             is_blocked [((5, 5), HighWall), ((9, 9), LowWall)] Dog oc \<and>
                             \<bar>fst n - fst oc\<bar> \<le> 1 \<and> \<bar>snd n - snd oc\<bar> \<le> 1)}\<rparr>)"
    by (auto simp: initial_robot_def)
  show ?thesis
    unfolding r by (simp add: in_grid_def is_blocked_def)
qed

lemma oct_alt:
  "oct x y = max (\<bar>x\<bar> + (sqrt 2 - 1) * \<bar>y\<bar>) (\<bar>y\<bar> + (sqrt 2 - 1) * \<bar>x\<bar>)"
proof -
  define t P Q where "t = sqrt 2 - 1" and "P = \<bar>x\<bar>" and "Q = \<bar>y\<bar>"
  have t: "0 \<le> 1 - t" using sqrt2_bounds by (simp add: t_def)
  show ?thesis
  proof (cases "P \<le> Q")
    case True
    then have "0 \<le> (Q - P) * (1 - t)" using t by simp
    then have "P + t * Q \<le> Q + t * P" by (simp add: algebra_simps)
    then show ?thesis using True unfolding oct_def t_def[symmetric] P_def[symmetric] Q_def[symmetric]
      by (simp add: max_def min_def)
  next
    case False
    then have "0 \<le> (P - Q) * (1 - t)" using t by simp
    then have "Q + t * P \<le> P + t * Q" by (simp add: algebra_simps)
    then show ?thesis using False unfolding oct_def t_def[symmetric] P_def[symmetric] Q_def[symmetric]
      by (simp add: max_def min_def)
  qed
qed

lemma oct_subadd: "oct (x + u) (y + v) \<le> oct x y + oct u v"
proof -
  define t where "t = sqrt 2 - 1"
  have t: "0 \<le> t" using sqrt2_bounds by (simp add: t_def)
  have a: "\<bar>x + u\<bar> \<le> \<bar>x\<bar> + \<bar>u\<bar>" "\<bar>y + v\<bar> \<le> \<bar>y\<bar> + \<bar>v\<bar>" by simp_all
  have b: "t * \<bar>x + u\<bar> \<le> t * \<bar>x\<bar> + t * \<bar>u\<bar>" "t * \<bar>y + v\<bar> \<le> t * \<bar>y\<bar> + t * \<bar>v\<bar>"
    using mult_left_mono[OF a(1) t] mult_left_mono[OF a(2) t] by (simp_all add: algebra_simps)
  have 1: "\<bar>x + u\<bar> + t * \<bar>y + v\<bar> \<le> (\<bar>x\<bar> + t * \<bar>y\<bar>) + (\<bar>u\<bar> + t * \<bar>v\<bar>)" using a b by linarith
  have 2: "\<bar>y + v\<bar> + t * \<bar>x + u\<bar> \<le> (\<bar>y\<bar> + t * \<bar>x\<bar>) + (\<bar>v\<bar> + t * \<bar>u\<bar>)" using a b by linarith
  show ?thesis
    unfolding oct_alt t_def[symmetric] using 1 2 by (simp add: max_def)
qed

lemma oct_zero: "oct 0 0 = 0"
  by (simp add: oct_def)

lemma step_cost_octile:
  assumes "king a b"
  shows "step_cost a b = octile a b"
proof -
  define dx dy where "dx = fst b - fst a" and "dy = snd b - snd a"
  have "(dx, dy) \<in> set directions" using assms by (simp add: dx_def dy_def king_def)
  then have "hypot (real_of_int dx) (real_of_int dy) = oct (real_of_int dx) (real_of_int dy)"
    by (auto simp: directions_def hypot_def oct_def)
  then show ?thesis by (simp only: step_cost_def octile_def dx_def dy_def)
qed

lemma octile_triangle:
  assumes "king a b"
  shows "octile a g \<le> step_cost a b + octile b g"
proof -
  have e: "real_of_int (fst g - fst a) = real_of_int (fst g - fst b) + real_of_int (fst b - fst a)"
    "real_of_int (snd g - snd a) = real_of_int (snd g - snd b) + real_of_int (snd b - snd a)"
    by simp_all
  have "octile a g \<le> octile b g + octile a b"
    unfolding octile_def e by (rule oct_subadd)
  then show ?thesis using step_cost_octile[OF assms] by simp
qed

lemma octile_lower:
  assumes "successively king xs" and "xs \<noteq> []"
  shows "octile (hd xs) (last xs) \<le> path_len xs"
  using assms
proof (induction xs rule: path_len.induct)
  case 1
  then show ?case by simp
next
  case (2 a)
  then show ?case by (simp add: octile_def oct_zero)
next
  case (3 a b rest)
  from 3 have k: "king a b" and s: "successively king (b # rest)" by simp_all
  from 3 s have "octile b (last (b # rest)) \<le> path_len (b # rest)" by simp
  with octile_triangle[OF k, of "last (b # rest)"] show ?case by simp
qed

lemma py_round_mono:
  assumes "x \<le> y"
  shows "py_round x \<le> py_round y"
proof -
  define f g where "f = \<lfloor>x\<rfloor>" and "g = \<lfloor>y\<rfloor>"
  have fg: "f \<le> g" using assms unfolding f_def g_def by (rule floor_mono)
  have rx: "py_round x \<le> f + 1" unfolding py_round_def Let_def f_def by simp
  have ry: "g \<le> py_round y" unfolding py_round_def Let_def g_def by simp
  show ?thesis
  proof (cases "f < g")
    case True
    with rx ry show ?thesis by linarith
  next
    case False
    with fg have e: "\<lfloor>y\<rfloor> = \<lfloor>x\<rfloor>" by (simp add: f_def g_def)
    show ?thesis unfolding py_round_def Let_def e using assms by simp
  qed
qed

lemma fits_convex:
  assumes "fits w os u" and "fits w os v" and "u \<le> x" and "x \<le> v"
  shows "fits w os x"
  unfolding fits_def
proof (intro conjI ballI)
  show "0 \<le> x" "x < w" using assms by (simp_all add: fits_def)
  fix d assume o: "d \<in> set os"
  have "py_round (real_of_int u + d) \<le> py_round (real_of_int x + d)"
    using assms(3) by (intro py_round_mono) simp
  moreover have "0 \<le> py_round (real_of_int u + d)" using assms(1) o by (simp add: fits_def)
  ultimately show "0 \<le> py_round (real_of_int x + d)" by linarith
  have "py_round (real_of_int x + d) \<le> py_round (real_of_int v + d)"
    using assms(4) by (intro py_round_mono) simp
  moreover have "py_round (real_of_int v + d) < w" using assms(2) o by (simp add: fits_def)
  ultimately show "py_round (real_of_int x + d) < w" by linarith
qed

lemma ok_empty:
  "ok gs {} offs c \<longleftrightarrow> fits (fst gs) (map fst offs) (fst c) \<and> fits (snd gs) (map snd offs) (snd c)"
  unfolding ok_def is_valid_position_iff fits_def in_grid_def to_float_def by auto

lemma oct_greedy:
  fixes p q :: int
  shows "oct (real_of_int p) (real_of_int q)
         = oct (real_of_int (sgn p)) (real_of_int (sgn q))
           + oct (real_of_int (p - sgn p)) (real_of_int (q - sgn q))"
proof -
  define t where "t = sqrt 2 - 1"
  have p: "\<bar>real_of_int (p - sgn p)\<bar> = \<bar>real_of_int p\<bar> - \<bar>real_of_int (sgn p)\<bar>"
    by (cases "p = 0"; cases "0 < p") (simp_all add: sgn_if)
  have q: "\<bar>real_of_int (q - sgn q)\<bar> = \<bar>real_of_int q\<bar> - \<bar>real_of_int (sgn q)\<bar>"
    by (cases "q = 0"; cases "0 < q") (simp_all add: sgn_if)
  have sp: "\<bar>real_of_int (sgn p)\<bar> = (if p = 0 then 0 else 1)" by (simp add: sgn_if)
  have sq: "\<bar>real_of_int (sgn q)\<bar> = (if q = 0 then 0 else 1)" by (simp add: sgn_if)
  have P: "p \<noteq> 0 \<Longrightarrow> 1 \<le> \<bar>real_of_int p\<bar>" by (cases "0 < p") simp_all
  have Q: "q \<noteq> 0 \<Longrightarrow> 1 \<le> \<bar>real_of_int q\<bar>" by (cases "0 < q") simp_all
  show ?thesis
    unfolding oct_def p q sp sq t_def[symmetric]
    using P Q by (cases "p = 0"; cases "q = 0") (simp_all add: max_def min_def algebra_simps)
qed

lemma toward_king:
  assumes "a \<noteq> g"
  shows "king a (toward g a)"
proof -
  have "fst g - fst a \<noteq> 0 \<or> snd g - snd a \<noteq> 0" using assms by (auto simp: prod_eq_iff)
  then show ?thesis
    unfolding king_def toward_def directions_def by (auto simp: sgn_if)
qed

lemma toward_octile:
  "octile a g = octile a (toward g a) + octile (toward g a) g"
proof -
  have e: "fst g - (fst a + sgn (fst g - fst a)) = (fst g - fst a) - sgn (fst g - fst a)"
    "snd g - (snd a + sgn (snd g - snd a)) = (snd g - snd a) - sgn (snd g - snd a)"
    "fst a + sgn (fst g - fst a) - fst a = sgn (fst g - fst a)"
    "snd a + sgn (snd g - snd a) - snd a = sgn (snd g - snd a)"
    by simp_all
  show ?thesis
    unfolding octile_def toward_def fst_conv snd_conv e by (rule oct_greedy)
qed

lemma toward_closer:
  assumes "a \<noteq> g"
  shows "nat (max \<bar>fst g - fst (toward g a)\<bar> \<bar>snd g - snd (toward g a)\<bar>)
          < nat (max \<bar>fst g - fst a\<bar> \<bar>snd g - snd a\<bar>)"
proof -
  have "fst g - fst a \<noteq> 0 \<or> snd g - snd a \<noteq> 0" using assms by (auto simp: prod_eq_iff)
  then show ?thesis
    unfolding toward_def fst_conv snd_conv by (auto simp: sgn_if max_def)
qed

lemma toward_between:
  assumes c: "\<And>u v w. A u \<Longrightarrow> A w \<Longrightarrow> u \<le> v \<Longrightarrow> v \<le> w \<Longrightarrow> A v"
    and g: "A (y :: int)"
    and a: "A x \<or> (x \<noteq> y \<and> A (x + sgn (y - x)))"
  shows "A (x + sgn (y - x))"
proof (cases "A x")
  case False
  with a show ?thesis by simp
next
  case True
  show ?thesis
  proof (cases "x = y")
    case True
    with g show ?thesis by simp
  next
    case False
    show ?thesis
    proof (cases "x < y")
      case True
      then have "x \<le> x + sgn (y - x)" "x + sgn (y - x) \<le> y" by (simp_all add: sgn_if)
      from c[OF \<open>A x\<close> g this] show ?thesis .
    next
      case ge: False
      with False have "y \<le> x + sgn (y - x)" "x + sgn (y - x) \<le> x" by (simp_all add: sgn_if)
      from c[OF g \<open>A x\<close> this] show ?thesis .
    qed
  qed
qed

lemma greedy_route:
  assumes prod: "\<And>c. ok gs ex offs c \<longleftrightarrow> A (fst c) \<and> B (snd c)"
    and cA: "\<And>u v w. A u \<Longrightarrow> A w \<Longrightarrow> u \<le> v \<Longrightarrow> v \<le> w \<Longrightarrow> A v"
    and cB: "\<And>u v w. B u \<Longrightarrow> B w \<Longrightarrow> u \<le> v \<Longrightarrow> v \<le> w \<Longrightarrow> B v"
    and gA: "A (fst g)" and gB: "B (snd g)"
  shows "A (fst a) \<or> (fst a \<noteq> fst g \<and> A (fst a + sgn (fst g - fst a))) \<Longrightarrow>
         B (snd a) \<or> (snd a \<noteq> snd g \<and> B (snd a + sgn (snd g - snd a))) \<Longrightarrow>
         \<exists>xs. is_route gs ex offs a g xs \<and> path_len xs = octile a g"
proof (induction "nat (max \<bar>fst g - fst a\<bar> \<bar>snd g - snd a\<bar>)" arbitrary: a rule: less_induct)
  case less
  show ?case
  proof (cases "a = g")
    case True
    have "is_route gs ex offs a g [g]" using True by (simp add: is_route_def)
    moreover have "path_len [g] = octile a g" using True by (simp add: octile_def oct_zero)
    ultimately show ?thesis by blast
  next
    case False
    let ?b = "toward g a"
    have Ab: "A (fst ?b)" unfolding toward_def fst_conv
      using cA gA less.prems(1) by (rule toward_between)
    have Bb: "B (snd ?b)" unfolding toward_def snd_conv
      using cB gB less.prems(2) by (rule toward_between)
    have k: "king a ?b" by (rule toward_king[OF False])
    have mv: "move gs ex offs a ?b"
      using k Ab Bb prod[of ?b] by (simp add: move_def king_def)
    from less.hyps[OF toward_closer[OF False]] Ab Bb obtain xs where
      r: "is_route gs ex offs ?b g xs" and l: "path_len xs = octile ?b g"
      by blast
    from r obtain rest where xs: "xs = ?b # rest" by (cases xs) (auto simp: is_route_def)
    have "is_route gs ex offs a g (a # xs)"
      using r mv unfolding xs by (simp add: is_route_def)
    moreover have "path_len (a # xs) = octile a g"
      using l toward_octile[of a g] step_cost_octile[OF k] unfolding xs by simp
    ultimately show ?thesis by blast
  qed
qed

lemma reach_entry:
  assumes prod: "\<And>c. ok gs ex offs c \<longleftrightarrow> A (fst c) \<and> B (snd c)"
    and cA: "\<And>u v w. A u \<Longrightarrow> A w \<Longrightarrow> u \<le> v \<Longrightarrow> v \<le> w \<Longrightarrow> A v"
    and cB: "\<And>u v w. B u \<Longrightarrow> B w \<Longrightarrow> u \<le> v \<Longrightarrow> v \<le> w \<Longrightarrow> B v"
    and r: "(move gs ex offs)\<^sup>*\<^sup>* a g" and ne: "a \<noteq> g"
  shows "A (fst g)" "B (snd g)"
    "A (fst a) \<or> (fst a \<noteq> fst g \<and> A (fst a + sgn (fst g - fst a)))"
    "B (snd a) \<or> (snd a \<noteq> snd g \<and> B (snd a + sgn (snd g - snd a)))"
proof -
  from reach_ok[OF r ne] prod[of g] show gA: "A (fst g)" and gB: "B (snd g)" by simp_all
  from r ne obtain s where s: "move gs ex offs a s"
    by (cases rule: converse_rtranclpE) auto
  then have d: "(fst s - fst a, snd s - snd a) \<in> set directions" and sA: "A (fst s)" and sB: "B (snd s)"
    using prod[of s] by (simp_all add: move_def)
  from d have dx: "\<bar>fst s - fst a\<bar> \<le> 1" and dy: "\<bar>snd s - snd a\<bar> \<le> 1"
    by (auto simp: directions_def)
  have gen: "P x \<or> (x \<noteq> y \<and> P (x + sgn (y - x)))"
    if c: "\<And>u v w. P u \<Longrightarrow> P w \<Longrightarrow> u \<le> v \<Longrightarrow> v \<le> w \<Longrightarrow> P v"
      and y: "P y" and z: "P z" and zx: "\<bar>z - x\<bar> \<le> 1" for P and x y z :: int
  proof (cases "P x")
    case True
    then show ?thesis by simp
  next
    case False
    with y z have n: "x \<noteq> y" "x \<noteq> z" by auto
    have "z = x + sgn (y - x)"
    proof (rule ccontr)
      assume a: "z \<noteq> x + sgn (y - x)"
      have "(z \<le> x \<and> x \<le> y) \<or> (y \<le> x \<and> x \<le> z)"
        using a n zx by (auto simp: sgn_if split: if_splits)
      then show False using c[OF z y, of x] c[OF y z, of x] False by blast
    qed
    with z n show ?thesis by simp
  qed
  show "A (fst a) \<or> (fst a \<noteq> fst g \<and> A (fst a + sgn (fst g - fst a)))"
    using cA gA sA dx by (rule gen)
  show "B (snd a) \<or> (snd a \<noteq> snd g \<and> B (snd a + sgn (snd g - snd a)))"
    using cB gB sB dy by (rule gen)
qed


lemma route_reach:
  assumes "is_route gs ex offs a b xs"
  shows "(move gs ex offs)\<^sup>*\<^sup>* a b"
  using assms
proof (induction xs arbitrary: a rule: induct_list012)
  case 1
  then show ?case by (simp add: is_route_def)
next
  case (2 x)
  then show ?case by (auto simp: is_route_def)
next
  case (3 x y zs)
  from 3(3) have m: "move gs ex offs a y" and r: "is_route gs ex offs y b (y # zs)"
    by (auto simp: is_route_def)
  from 3(2)[OF r] m show ?case by (rule converse_rtranclp_into_rtranclp[rotated])
qed

lemma empty_grid_route:
  assumes r: "(move gs {} offs)\<^sup>*\<^sup>* a g \<and> a \<noteq> g \<or> ok gs {} offs a \<and> ok gs {} offs g"
  shows "\<exists>xs. is_route gs {} offs a g xs \<and> path_len xs = octile a g"
proof -
  let ?A = "fits (fst gs) (map fst offs)" and ?B = "fits (snd gs) (map snd offs)"
  have prod: "\<And>c. ok gs {} offs c \<longleftrightarrow> ?A (fst c) \<and> ?B (snd c)" by (rule ok_empty)
  have cA: "\<And>u v w. ?A u \<Longrightarrow> ?A w \<Longrightarrow> u \<le> v \<Longrightarrow> v \<le> w \<Longrightarrow> ?A v" by (rule fits_convex)
  have cB: "\<And>u v w. ?B u \<Longrightarrow> ?B w \<Longrightarrow> u \<le> v \<Longrightarrow> v \<le> w \<Longrightarrow> ?B v" by (rule fits_convex)
  from r show ?thesis
  proof
    assume h: "(move gs {} offs)\<^sup>*\<^sup>* a g \<and> a \<noteq> g"
    then have h1: "(move gs {} offs)\<^sup>*\<^sup>* a g" and h2: "a \<noteq> g" by simp_all
    note e = reach_entry[of gs "{}" offs ?A ?B, OF prod cA cB h1 h2]
    show ?thesis
      by (rule greedy_route[of gs "{}" offs ?A ?B, OF prod cA cB e])
  next
    assume h: "ok gs {} offs a \<and> ok gs {} offs g"
    then have e: "?A (fst g)" "?B (snd g)" "?A (fst a)" "?B (snd a)" by (simp_all add: ok_empty)
    show ?thesis
      by (rule greedy_route[of gs "{}" offs ?A ?B, OF prod cA cB e(1,2)]) (simp_all add: e)
  qed
qed

lemma dog_valid_55:
  "is_valid_position (40, 40) {} (map snd (map (\<lambda>(k, v). (k, vsub v (1, 1))) (shape_positions get_dog_shape))) (to_float (5, 5))"
  by (simp add: get_dog_shape_def vsub_def vadd_def py_round_def in_grid_def to_float_def)

lemma dog_valid_76:
  "is_valid_position (40, 40) {} (map snd (map (\<lambda>(k, v). (k, vsub v (1, 1))) (shape_positions get_dog_shape))) (to_float (7, 6))"
  by (simp add: get_dog_shape_def vsub_def vadd_def py_round_def in_grid_def to_float_def)

section \<open>The search with rounded arithmetic\<close>

text \<open>
  With rounded arithmetic the cost of a cell can exceed the length of the route it stands
  for, or fall short of it, by the slack of each relaxation on the way. The search still
  ends, and the cost of goal exceeds the length of any route from start by at most a
  multiple of the slack (lemma \<open>a_star_fp_total\<close>). The length of a sequence of king
  steps is a sum of ones and square roots of 2, and two such sums that differ, differ by
  more than that multiple when the relative error is small for the grid (lemmas
  \<open>sqrt2_gap\<close> and \<open>length_pinned\<close>). So the path returned is exactly as long as
  the shortest one.
\<close>

lemma cap_ge: "2 \<le> real (cap gs)"
  by (simp add: cap_def)

lemma sqrt2_le: "sqrt 2 \<le> 3/2"
  by (rule real_le_lsqrt) (simp_all add: power2_eq_square)

lemma small_facts:
  assumes e: "0 \<le> eps" and s: "small gs eps"
  shows "eps * real (cap gs) \<le> 1/2048" "eps \<le> 1/4096" "slack gs eps \<le> 1/256" "0 \<le> slack gs eps"
    "slack gs eps * (48 * real (cap gs) ^ 2) < 1"
proof -
  define K where "K = real (cap gs)"
  define x where "x = eps * K"
  have K: "2 \<le> K" unfolding K_def by (rule cap_ge)
  have x0: "0 \<le> x" using e K by (simp add: x_def)
  have "2 * 2 \<le> K * K" using K by (intro mult_mono) simp_all
  then have k2: "4 \<le> K * K" by simp
  have s': "512 * (x * (K * K)) \<le> 1"
    using s by (simp add: small_def K_def x_def power3_eq_cube algebra_simps)
  have "x * 4 \<le> x * (K * K)" using k2 x0 by (rule mult_left_mono)
  with s' have a: "2048 * x \<le> 1" by linarith
  then show b: "eps * real (cap gs) \<le> 1/2048" unfolding x_def K_def by linarith
  have "eps * 2 \<le> eps * K" using K e by (rule mult_left_mono)
  with a show "eps \<le> 1/4096" unfolding x_def by linarith
  have sl: "slack gs eps = 8 * x" by (simp add: slack_def x_def K_def)
  show "slack gs eps \<le> 1/256" unfolding sl using a by linarith
  show "0 \<le> slack gs eps" unfolding sl using x0 by simp
  have "slack gs eps * (48 * real (cap gs) ^ 2) = 384 * (x * (K * K))"
    unfolding sl by (simp add: K_def power2_eq_square)
  with s' show "slack gs eps * (48 * real (cap gs) ^ 2) < 1" by linarith
qed


lemma accurateD:
  assumes "accurate eps A"
  shows "0 \<le> eps"
    "\<And>x y. 0 \<le> x \<Longrightarrow> 0 \<le> y \<Longrightarrow> eps * (x + y) \<le> 1 \<Longrightarrow> \<bar>fadd A x y - (x + y)\<bar> \<le> eps * (x + y)"
    "\<And>p q. eps * (\<bar>real_of_int p\<bar> + \<bar>real_of_int q\<bar>) \<le> 1 \<Longrightarrow>
             \<bar>fhypot A p q - hypot (real_of_int p) (real_of_int q)\<bar>
               \<le> eps * hypot (real_of_int p) (real_of_int q)"
  using assms unfolding accurate_def by blast+

lemma hypot_nonneg: "0 \<le> hypot a b"
  by (simp add: hypot_def)

lemma hypot_le_sum: "hypot a b \<le> \<bar>a\<bar> + \<bar>b\<bar>"
  unfolding hypot_def by (rule sqrt_sum_squares_le_sum_abs)

lemma grid_sum:
  assumes "in_grid gs m"
  shows "real_of_int (fst gs) + real_of_int (snd gs) \<le> real (cap gs) / 2"
proof -
  define W H where "W = fst gs" and "H = snd gs"
  have w: "1 \<le> W" "1 \<le> H" using assms by (auto simp: in_grid_def W_def H_def)
  then have "0 \<le> (W - 1) * (H - 1)" by simp
  then have "W + H \<le> W * H + 1" by (simp add: algebra_simps)
  moreover have "int (cap gs) = 2 * (W * H + 1)" using w by (simp add: cap_def W_def H_def)
  ultimately have "2 * (W + H) \<le> int (cap gs)" by simp
  then have "real_of_int (2 * (W + H)) \<le> real_of_int (int (cap gs))" by (simp only: of_int_le_iff)
  then show ?thesis by (simp add: W_def H_def)
qed

lemma step_arith:
  assumes acc: "accurate eps A" and sm: "small gs eps"
    and c0: "0 \<le> c" and cK: "c + 2 \<le> real (cap gs)"
    and d: "d \<in> set directions"
  shows "\<bar>fadd A c (fhypot A (fst d) (snd d)) - (c + hypot (real_of_int (fst d)) (real_of_int (snd d)))\<bar>
           \<le> slack gs eps / 2"
proof -
  define K where "K = real (cap gs)"
  define x where "x = eps * K"
  define s where "s = hypot (real_of_int (fst d)) (real_of_int (snd d))"
  define h where "h = fhypot A (fst d) (snd d)"
  note a = accurateD[OF acc]
  note f = small_facts[OF a(1) sm]
  have K: "2 \<le> K" unfolding K_def by (rule cap_ge)
  have x: "x \<le> 1/2048" "0 \<le> x" using f(1) a(1) K by (simp_all add: x_def K_def)
  have "(fst d, snd d) \<in> set directions" using d by simp
  then have sv: "s = 1 \<or> s = sqrt 2" and ab: "\<bar>real_of_int (fst d)\<bar> + \<bar>real_of_int (snd d)\<bar> \<le> 2"
    unfolding s_def by (auto simp: directions_def hypot_def)
  have s1: "1 \<le> s" "s \<le> 2" using sv sqrt2_bounds by auto
  have e2: "eps * 2 \<le> x" unfolding x_def using K a(1) by (rule mult_left_mono)
  have "eps * (\<bar>real_of_int (fst d)\<bar> + \<bar>real_of_int (snd d)\<bar>) \<le> eps * 2"
    using ab a(1) by (rule mult_left_mono)
  with e2 x have "eps * (\<bar>real_of_int (fst d)\<bar> + \<bar>real_of_int (snd d)\<bar>) \<le> 1" by linarith
  from a(3)[OF this] have "\<bar>h - s\<bar> \<le> eps * s" by (simp add: h_def s_def)
  moreover have "eps * s \<le> eps * 2" using s1(2) a(1) by (rule mult_left_mono)
  ultimately have hs: "\<bar>h - s\<bar> \<le> x" using e2 by linarith
  have h0: "0 \<le> h" using hs s1 x by linarith
  have "c + h \<le> 2 * K" using cK hs s1 x K unfolding K_def by linarith
  then have "eps * (c + h) \<le> eps * (2 * K)" using a(1) by (rule mult_left_mono)
  then have ch: "eps * (c + h) \<le> 2 * x" by (simp add: x_def)
  with x have "eps * (c + h) \<le> 1" by linarith
  from a(2)[OF c0 h0 this] ch have "\<bar>fadd A c h - (c + h)\<bar> \<le> 2 * x" by linarith
  with hs have "\<bar>fadd A c h - (c + s)\<bar> \<le> 3 * x" by linarith
  moreover have "slack gs eps / 2 = 4 * x" by (simp add: slack_def x_def K_def)
  ultimately show ?thesis using x unfolding h_def s_def by linarith
qed

lemma prio_arith:
  assumes acc: "accurate eps A" and sm: "small gs eps"
    and n0: "0 \<le> nc" and nK: "nc \<le> real (cap gs)"
    and g: "in_grid gs goal" and m: "in_grid gs m"
  shows "\<bar>fadd A nc (heuristic_fp A goal m) - (nc + heuristic goal m)\<bar> \<le> slack gs eps"
proof -
  define K where "K = real (cap gs)"
  define x where "x = eps * K"
  define p q where "p = fst goal - fst m" and "q = snd goal - snd m"
  define hh where "hh = hypot (real_of_int p) (real_of_int q)"
  define hf where "hf = fhypot A p q"
  note a = accurateD[OF acc]
  note f = small_facts[OF a(1) sm]
  have K: "2 \<le> K" unfolding K_def by (rule cap_ge)
  have x: "x \<le> 1/2048" "0 \<le> x" using f(1) a(1) K by (simp_all add: x_def K_def)
  have "\<bar>real_of_int p\<bar> \<le> real_of_int (fst gs)" "\<bar>real_of_int q\<bar> \<le> real_of_int (snd gs)"
    using g m unfolding p_def q_def in_grid_def by linarith+
  with grid_sum[OF m] have pq: "\<bar>real_of_int p\<bar> + \<bar>real_of_int q\<bar> \<le> K" using K unfolding K_def by linarith
  have hhb: "0 \<le> hh" "hh \<le> K" using hypot_nonneg hypot_le_sum[of "real_of_int p" "real_of_int q"] pq
    unfolding hh_def by simp_all
  have "eps * (\<bar>real_of_int p\<bar> + \<bar>real_of_int q\<bar>) \<le> eps * K" using pq a(1) by (rule mult_left_mono)
  then have "eps * (\<bar>real_of_int p\<bar> + \<bar>real_of_int q\<bar>) \<le> 1" using x unfolding x_def by linarith
  from a(3)[OF this] have "\<bar>hf - hh\<bar> \<le> eps * hh" by (simp add: hf_def hh_def)
  moreover have "eps * hh \<le> eps * K" using hhb(2) a(1) by (rule mult_left_mono)
  ultimately have hd: "\<bar>hf - hh\<bar> \<le> x" unfolding x_def by linarith
  have "0 \<le> eps * hh" using a(1) hhb(1) by simp
  have e1: "eps * hh \<le> hh"
  proof -
    have "eps * hh \<le> 1 * hh" using f(2) hhb(1) by (intro mult_right_mono) simp_all
    then show ?thesis by simp
  qed
  have h0: "0 \<le> hf" using \<open>\<bar>hf - hh\<bar> \<le> eps * hh\<close> e1 by linarith
  have "nc + hf \<le> 3 * K" using nK hd hhb x K unfolding K_def by linarith
  then have "eps * (nc + hf) \<le> eps * (3 * K)" using a(1) by (rule mult_left_mono)
  then have nh: "eps * (nc + hf) \<le> 3 * x" by (simp add: x_def)
  with x have "eps * (nc + hf) \<le> 1" by linarith
  from a(2)[OF n0 h0 this] nh have "\<bar>fadd A nc hf - (nc + hf)\<bar> \<le> 3 * x" by linarith
  with hd x have "\<bar>fadd A nc hf - (nc + hh)\<bar> \<le> 8 * x" by linarith
  moreover have "slack gs eps = 8 * x" by (simp add: slack_def x_def K_def)
  moreover have "heuristic_fp A goal m = hf" "heuristic goal m = hh"
    by (simp_all add: heuristic_fp_def heuristic_def hf_def hh_def p_def q_def)
  ultimately show ?thesis by simp
qed


lemma visit_fp_cases:
  assumes "cost_so_far st cur = Some c"
  shows "(visit_fp A gs ex offs goal cur d st = Inr st \<and>
            (ok gs ex offs (fst cur + fst d, snd cur + snd d) \<longrightarrow>
               (\<exists>old. cost_so_far st (fst cur + fst d, snd cur + snd d) = Some old \<and>
                      old \<le> fadd A c (fhypot A (fst d) (snd d))))) \<or>
         (ok gs ex offs (fst cur + fst d, snd cur + snd d) \<and>
          (\<forall>old. cost_so_far st (fst cur + fst d, snd cur + snd d) = Some old \<longrightarrow>
                   fadd A c (fhypot A (fst d) (snd d)) < old) \<and>
          visit_fp A gs ex offs goal cur d st =
            Inr (relax_fp st cur (fst cur + fst d, snd cur + snd d)
                   (fadd A c (fhypot A (fst d) (snd d)))
                   (fadd A (fadd A c (fhypot A (fst d) (snd d)))
                      (heuristic_fp A goal (fst cur + fst d, snd cur + snd d)))))"
proof -
  let ?m = "(fst cur + fst d, snd cur + snd d)"
  show ?thesis
  proof (cases "ok gs ex offs ?m")
    case False
    then show ?thesis by (auto simp: visit_fp_def ok_def Let_def)
  next
    case True
    then have g: "in_grid gs ?m" "is_valid_position gs ex offs (to_float ?m)"
      by (simp_all add: ok_def)
    show ?thesis
    proof (cases "cost_so_far st ?m")
      case None
      then show ?thesis using g assms True
        by (simp add: visit_fp_def Let_def relax_fp_def)
    next
      case (Some old)
      then show ?thesis using g assms True
        by (simp add: visit_fp_def Let_def relax_fp_def)
    qed
  qed
qed

lemma relax_fp_fields:
  "cost_so_far (relax_fp st cur m nc pr) = (cost_so_far st)(m \<mapsto> nc)"
  "came_from (relax_fp st cur m nc pr) = (came_from st)(m \<mapsto> Some cur)"
  "set (frontier (relax_fp st cur m nc pr)) = insert (pr, m) (set (frontier st))"
  "length (frontier (relax_fp st cur m nc pr)) = Suc (length (frontier st))"
  "sorted (frontier (relax_fp st cur m nc pr)) = sorted (frontier st)"
  by (simp_all add: relax_fp_def set_insort_key sorted_insort)

lemma inv_links_fpD:
  assumes "inv_links_fp dl gs ex offs start st"
  shows "cost_so_far st start = Some 0" "came_from st start = Some None"
    "dom (came_from st) = dom (cost_so_far st)"
    "\<And>n c. cost_so_far st n = Some c \<Longrightarrow> 0 \<le> c"
    "\<And>n. came_from st n = Some None \<Longrightarrow> n = start"
    "\<And>n p. came_from st n = Some (Some p) \<Longrightarrow>
          move gs ex offs p n \<and>
          (\<exists>cp cn. cost_so_far st p = Some cp \<and> cost_so_far st n = Some cn \<and>
                   cp + step_cost p n \<le> cn + dl)"
  using assms unfolding inv_links_fp_def by blast+

lemma relax_links_fp:
  assumes inv: "inv_links_fp dl gs ex offs start st"
    and c: "cost_so_far st cur = Some c"
    and mv: "move gs ex offs cur m"
    and lt: "\<forall>old. cost_so_far st m = Some old \<longrightarrow> nc < old"
    and lo: "c + step_cost cur m \<le> nc + dl"
    and up: "c < nc"
  shows "inv_links_fp dl gs ex offs start (relax_fp st cur m nc pr)"
proof -
  note s = move_step[OF mv]
  note d = inv_links_fpD[OF inv]
  have c0: "0 \<le> c" using d(4)[OF c] .
  have ms: "m \<noteq> start"
  proof
    assume "m = start"
    then have "cost_so_far st m = Some 0" using d(1) by simp
    with lt have "nc < 0" by simp
    with c0 up show False by linarith
  qed
  have mc: "m \<noteq> cur" using s(3) by simp
  let ?st = "relax_fp st cur m nc pr"
  have links: "move gs ex offs p n \<and>
          (\<exists>cp cn. cost_so_far ?st p = Some cp \<and> cost_so_far ?st n = Some cn \<and>
                   cp + step_cost p n \<le> cn + dl)"
    if h: "came_from ?st n = Some (Some p)" for n p
  proof (cases "n = m")
    case True
    then have "p = cur" using h by (simp add: relax_fp_fields)
    then show ?thesis using True mv c mc lo by (simp add: relax_fp_fields)
  next
    case False
    then have "came_from st n = Some (Some p)" using h by (simp add: relax_fp_fields)
    from d(6)[OF this] obtain cp cn where o: "move gs ex offs p n" "cost_so_far st p = Some cp"
      "cost_so_far st n = Some cn" "cp + step_cost p n \<le> cn + dl"
      by blast
    show ?thesis
    proof (cases "p = m")
      case True
      with o(2) lt have "nc < cp" by simp
      then show ?thesis using o True False by (simp add: relax_fp_fields)
    next
      case pm: False
      then show ?thesis using o False by (simp add: relax_fp_fields)
    qed
  qed
  show ?thesis
    unfolding inv_links_fp_def
  proof (intro conjI allI impI)
    show "cost_so_far ?st start = Some 0" using d(1) ms by (simp add: relax_fp_fields)
    show "came_from ?st start = Some None" using d(2) ms by (simp add: relax_fp_fields)
    show "dom (came_from ?st) = dom (cost_so_far ?st)" using d(3) by (simp add: relax_fp_fields)
    show "0 \<le> x" if "cost_so_far ?st n = Some x" for n x
    proof (cases "n = m")
      case True
      then show ?thesis using that c0 up by (simp add: relax_fp_fields)
    next
      case False
      then show ?thesis using that d(4)[of n x] by (simp add: relax_fp_fields)
    qed
    show "n = start" if "came_from ?st n = Some None" for n
    proof (cases "n = m")
      case True
      then show ?thesis using that by (simp add: relax_fp_fields)
    next
      case False
      then show ?thesis using that d(5)[of n] by (simp add: relax_fp_fields)
    qed
    show "move gs ex offs p n" if "came_from ?st n = Some (Some p)" for n p
      using links[OF that] by simp
    show "\<exists>cp cn. cost_so_far ?st p = Some cp \<and> cost_so_far ?st n = Some cn \<and>
                  cp + step_cost p n \<le> cn + dl"
      if "came_from ?st n = Some (Some p)" for n p
      using links[OF that] by simp
  qed
qed

lemma relax_reach_fp:
  assumes "inv_reach gs ex offs start st" and "cost_so_far st cur = Some c" and "move gs ex offs cur m"
  shows "inv_reach gs ex offs start (relax_fp st cur m nc pr)"
proof -
  have "(move gs ex offs)\<^sup>*\<^sup>* start cur" using assms(1,2) by (auto simp: inv_reach_def)
  then have "(move gs ex offs)\<^sup>*\<^sup>* start m" using assms(3) by (rule rtranclp.rtrancl_into_rtrancl)
  then show ?thesis using assms(1) by (auto simp: inv_reach_def relax_fp_fields)
qed

lemma relax_front_fp:
  assumes inv: "inv_front_fp dl goal start st"
    and lt: "\<forall>old. cost_so_far st m = Some old \<longrightarrow> nc < old"
    and pr: "nc + heuristic goal m \<le> pr + dl"
  shows "inv_front_fp dl goal start (relax_fp st cur m nc pr)"
  unfolding inv_front_fp_def
proof (intro conjI ballI)
  let ?st = "relax_fp st cur m nc pr"
  show "sorted (frontier ?st)" using inv by (simp add: relax_fp_fields inv_front_fp_def)
  fix e assume e: "e \<in> set (frontier ?st)"
  show "\<exists>c. cost_so_far ?st (snd e) = Some c \<and> (snd e = start \<or> c + heuristic goal (snd e) \<le> fst e + dl)"
  proof (cases "snd e = m")
    case True
    have "e = (pr, m) \<or> e \<in> set (frontier st)" using e by (simp add: relax_fp_fields)
    then have "snd e = start \<or> nc + heuristic goal (snd e) \<le> fst e + dl"
    proof
      assume "e = (pr, m)"
      then show ?thesis using pr by simp
    next
      assume "e \<in> set (frontier st)"
      with inv obtain c where c: "cost_so_far st (snd e) = Some c"
        "snd e = start \<or> c + heuristic goal (snd e) \<le> fst e + dl"
        unfolding inv_front_fp_def by blast
      from c(1) True lt have "nc < c" by simp
      with c(2) show ?thesis by auto
    qed
    then show ?thesis using True by (simp add: relax_fp_fields)
  next
    case False
    then have "e \<in> set (frontier st)" using e by (auto simp: relax_fp_fields)
    with inv obtain c where c: "cost_so_far st (snd e) = Some c"
        "snd e = start \<or> c + heuristic goal (snd e) \<le> fst e + dl"
      unfolding inv_front_fp_def by blast
    then show ?thesis using False by (simp add: relax_fp_fields)
  qed
qed

lemma relax_closed_fp:
  assumes inv: "inv_closed_fp dl gs ex offs goal X st"
    and lt: "\<forall>old. cost_so_far st m = Some old \<longrightarrow> nc < old"
    and pr: "pr \<le> nc + heuristic goal m + dl"
  shows "inv_closed_fp dl gs ex offs goal X (relax_fp st cur m nc pr)"
  unfolding inv_closed_fp_def
proof (intro allI impI)
  let ?st = "relax_fp st cur m nc pr"
  fix n c assume n: "cost_so_far ?st n = Some c"
  show "n \<in> X \<or> (\<exists>pr. pr \<le> c + heuristic goal n + dl \<and> (pr, n) \<in> set (frontier ?st)) \<or>
         (\<forall>k. move gs ex offs n k \<longrightarrow> (\<exists>ck. cost_so_far ?st k = Some ck \<and> ck \<le> c + step_cost n k + dl))"
  proof (cases "n = m")
    case True
    then have "c = nc" using n by (simp add: relax_fp_fields)
    then have "pr \<le> c + heuristic goal n + dl \<and> (pr, n) \<in> set (frontier ?st)"
      using True pr by (simp add: relax_fp_fields)
    then show ?thesis by blast
  next
    case False
    then have "cost_so_far st n = Some c" using n by (simp add: relax_fp_fields)
    with inv have "n \<in> X \<or> (\<exists>pr. pr \<le> c + heuristic goal n + dl \<and> (pr, n) \<in> set (frontier st)) \<or>
         (\<forall>k. move gs ex offs n k \<longrightarrow> (\<exists>ck. cost_so_far st k = Some ck \<and> ck \<le> c + step_cost n k + dl))"
      unfolding inv_closed_fp_def by blast
    then show ?thesis
    proof (elim disjE)
      assume "n \<in> X" then show ?thesis by simp
    next
      assume "\<exists>pr. pr \<le> c + heuristic goal n + dl \<and> (pr, n) \<in> set (frontier st)"
      then show ?thesis by (auto simp: relax_fp_fields)
    next
      assume r: "\<forall>k. move gs ex offs n k \<longrightarrow> (\<exists>ck. cost_so_far st k = Some ck \<and> ck \<le> c + step_cost n k + dl)"
      have "\<exists>ck. cost_so_far ?st k = Some ck \<and> ck \<le> c + step_cost n k + dl" if mv: "move gs ex offs n k" for k
      proof -
        from r mv obtain ck where ck: "cost_so_far st k = Some ck" "ck \<le> c + step_cost n k + dl" by blast
        show ?thesis
        proof (cases "k = m")
          case True
          with ck(1) lt have "nc < ck" by simp
          with ck(2) True show ?thesis by (simp add: relax_fp_fields)
        next
          case False
          with ck show ?thesis by (simp add: relax_fp_fields)
        qed
      qed
      then show ?thesis by blast
    qed
  qed
qed


lemma finite_words: "finite (words K)"
  unfolding words_def by (rule finite_lists_length_le) simp

lemma finite_vals_fp: "finite (vals_fp A K)"
  by (simp add: vals_fp_def finite_words)

lemma cval_snoc: "cval A (ds @ [d]) = fadd A (cval A ds) (fhypot A (fst d) (snd d))"
  by (simp add: cval_def)

lemma rank_fp_less:
  assumes "c' \<in> vals_fp A K" and "c' < c"
  shows "rank_fp A K c' < rank_fp A K c"
  unfolding rank_fp_def
proof (rule psubset_card_mono)
  show "finite {v \<in> vals_fp A K. v < c}" using finite_vals_fp by simp
  show "{v \<in> vals_fp A K. v < c'} \<subset> {v \<in> vals_fp A K. v < c}" using assms by auto
qed

lemma rank_fp_less_card:
  assumes "c \<in> vals_fp A K"
  shows "rank_fp A K c < card (vals_fp A K)"
  unfolding rank_fp_def
proof (rule psubset_card_mono)
  show "finite (vals_fp A K)" by (rule finite_vals_fp)
  show "{v \<in> vals_fp A K. v < c} \<subset> vals_fp A K" using assms by auto
qed

lemma inv_bound_fpD:
  assumes "inv_bound_fp A gs start st"
  shows "dom (cost_so_far st) \<subseteq> cells gs start"
    "\<And>n c. cost_so_far st n = Some c \<Longrightarrow>
        \<exists>ds. set ds \<subseteq> set directions \<and> c = cval A ds \<and> real (length ds) \<le> 2 * c"
    "\<And>n c. cost_so_far st n = Some c \<Longrightarrow> c + 2 \<le> 2 * real (card (dom (cost_so_far st)))"
    "\<And>n c. cost_so_far st n = Some c \<Longrightarrow> c + 2 \<le> real (cap gs)"
    "\<And>n c. cost_so_far st n = Some c \<Longrightarrow> c \<in> vals_fp A (2 * cap gs)"
proof -
  show sub: "dom (cost_so_far st) \<subseteq> cells gs start" using assms unfolding inv_bound_fp_def by blast
  show l: "\<exists>ds. set ds \<subseteq> set directions \<and> c = cval A ds \<and> real (length ds) \<le> 2 * c"
    if "cost_so_far st n = Some c" for n c
    using assms that unfolding inv_bound_fp_def by blast
  show b: "c + 2 \<le> 2 * real (card (dom (cost_so_far st)))" if "cost_so_far st n = Some c" for n c
    using assms that unfolding inv_bound_fp_def by blast
  show k: "c + 2 \<le> real (cap gs)" if h: "cost_so_far st n = Some c" for n c
  proof -
    have "card (dom (cost_so_far st)) \<le> card (cells gs start)"
      using sub finite_cells by (rule card_mono[rotated])
    also have "\<dots> \<le> nat (fst gs) * nat (snd gs) + 1" by (rule card_cells)
    finally have "2 * card (dom (cost_so_far st)) \<le> cap gs"
      unfolding cap_def by simp
    then have "real (2 * card (dom (cost_so_far st))) \<le> real (cap gs)"
      by (simp only: of_nat_le_iff)
    then have "2 * real (card (dom (cost_so_far st))) \<le> real (cap gs)"
      by simp
    with b[OF h] show ?thesis by linarith
  qed
  show "c \<in> vals_fp A (2 * cap gs)" if h: "cost_so_far st n = Some c" for n c
  proof -
    from l[OF h] obtain ds where ds: "set ds \<subseteq> set directions" "c = cval A ds" "real (length ds) \<le> 2 * c"
      by blast
    from ds(3) k[OF h] have "real (length ds) \<le> real (2 * cap gs)" by simp
    then have "length ds \<le> 2 * cap gs" by (simp only: of_nat_le_iff)
    with ds(1) have "ds \<in> words (2 * cap gs)" by (simp add: words_def)
    then show ?thesis unfolding vals_fp_def ds(2) by (rule imageI)
  qed
qed

lemma finite_dom_cost_fp:
  assumes "inv_bound_fp A gs start st"
  shows "finite (dom (cost_so_far st))"
  using inv_bound_fpD(1)[OF assms] finite_cells by (rule finite_subset)

lemma relax_bound_fp:
  assumes inv: "inv_bound_fp A gs start st"
    and c: "cost_so_far st cur = Some c"
    and mv: "move gs ex offs cur m"
    and lt: "\<forall>old. cost_so_far st m = Some old \<longrightarrow> nc < old"
    and lo: "c + 1/2 \<le> nc" and hi: "nc \<le> c + 2"
    and eq: "nc = fadd A c (fhypot A (fst m - fst cur) (snd m - snd cur))"
  shows "inv_bound_fp A gs start (relax_fp st cur m nc pr)"
proof -
  note d = inv_bound_fpD[OF inv]
  note s = move_step[OF mv]
  let ?D = "dom (cost_so_far st)"
  let ?st = "relax_fp st cur m nc pr"
  have fin: "finite ?D" by (rule finite_dom_cost_fp[OF inv])
  have dom': "dom (cost_so_far ?st) = insert m ?D" by (simp add: relax_fp_fields)
  have mono: "card ?D \<le> card (insert m ?D)" using fin by (simp add: card_insert_le)
  have dirs: "(fst m - fst cur, snd m - snd cur) \<in> set directions" using mv by (simp add: move_def)
  have len: "\<exists>ds. set ds \<subseteq> set directions \<and> nc = cval A ds \<and> real (length ds) \<le> 2 * nc"
  proof -
    from d(2)[OF c] obtain ds where ds: "set ds \<subseteq> set directions" "c = cval A ds" "real (length ds) \<le> 2 * c"
      by blast
    let ?ds = "ds @ [(fst m - fst cur, snd m - snd cur)]"
    have "set ?ds \<subseteq> set directions" using ds(1) dirs by simp
    moreover have "nc = cval A ?ds" using eq ds(2) by (simp add: cval_snoc)
    moreover have "real (length ?ds) \<le> 2 * nc" using ds(3) lo by simp
    ultimately show ?thesis by blast
  qed
  have bnd: "nc + 2 \<le> 2 * real (card (insert m ?D))"
  proof (cases "cost_so_far st m")
    case None
    then have "m \<notin> ?D" by auto
    then have "card (insert m ?D) = Suc (card ?D)" using fin by simp
    then have "2 * real (card (insert m ?D)) = 2 * real (card ?D) + 2" by simp
    with d(3)[OF c] hi show ?thesis by linarith
  next
    case (Some old)
    with lt have "nc < old" by simp
    moreover have "old + 2 \<le> 2 * real (card ?D)" using d(3)[OF Some] .
    moreover have "real (card ?D) \<le> real (card (insert m ?D))" using mono by simp
    ultimately show ?thesis by linarith
  qed
  show ?thesis
    unfolding inv_bound_fp_def dom'
  proof (intro conjI allI impI)
    show "insert m ?D \<subseteq> cells gs start" using d(1) s(4) by (simp add: cells_def)
    show "\<exists>ds. set ds \<subseteq> set directions \<and> x = cval A ds \<and> real (length ds) \<le> 2 * x"
      if "cost_so_far ?st n = Some x" for n x
    proof (cases "n = m")
      case True
      then show ?thesis using that len by (simp add: relax_fp_fields)
    next
      case False
      then show ?thesis using that d(2)[of n x] by (simp add: relax_fp_fields)
    qed
    show "x + 2 \<le> 2 * real (card (insert m ?D))" if "cost_so_far ?st n = Some x" for n x
    proof (cases "n = m")
      case True
      then show ?thesis using that bnd by (simp add: relax_fp_fields)
    next
      case False
      then have "x + 2 \<le> 2 * real (card ?D)" using that d(3)[of n x] by (simp add: relax_fp_fields)
      moreover have "real (card ?D) \<le> real (card (insert m ?D))" using mono by simp
      ultimately show ?thesis by linarith
    qed
  qed
qed

lemma relax_measure_fp:
  assumes inv: "inv_bound_fp A gs start st"
    and inv': "inv_bound_fp A gs start (relax_fp st cur m nc pr)"
    and mg: "in_grid gs m"
    and lt: "\<forall>old. cost_so_far st m = Some old \<longrightarrow> nc < old"
  shows "measure_fp A gs start (relax_fp st cur m nc pr) < measure_fp A gs start st"
proof -
  let ?st = "relax_fp st cur m nc pr"
  let ?C = "cells gs start"
  let ?K = "2 * cap gs"
  have mC: "m \<in> ?C" using mg by (simp add: cells_def)
  have nc: "nc \<in> vals_fp A ?K"
    using inv_bound_fpD(5)[OF inv', of m nc] by (simp add: relax_fp_fields)
  have new: "rk_fp A ?K ?st m = rank_fp A ?K nc" by (simp add: rk_fp_def relax_fp_fields)
  have dec: "rk_fp A ?K ?st m < rk_fp A ?K st m"
  proof (cases "cost_so_far st m")
    case None
    then show ?thesis using rank_fp_less_card[OF nc] new by (simp add: rk_fp_def)
  next
    case (Some old)
    with lt have "nc < old" by simp
    from rank_fp_less[OF nc this] show ?thesis using new Some by (simp add: rk_fp_def)
  qed
  have same: "rk_fp A ?K ?st n = rk_fp A ?K st n" if "n \<in> ?C - {m}" for n
    using that by (simp add: rk_fp_def relax_fp_fields)
  have "(\<Sum>n\<in>?C. rk_fp A ?K ?st n) = rk_fp A ?K ?st m + (\<Sum>n\<in>?C - {m}. rk_fp A ?K ?st n)"
    using finite_cells mC by (rule sum.remove)
  also have "(\<Sum>n\<in>?C - {m}. rk_fp A ?K ?st n) = (\<Sum>n\<in>?C - {m}. rk_fp A ?K st n)"
    using same by (rule sum.cong[OF refl])
  finally have a: "(\<Sum>n\<in>?C. rk_fp A ?K ?st n) = rk_fp A ?K ?st m + (\<Sum>n\<in>?C - {m}. rk_fp A ?K st n)" .
  have b: "(\<Sum>n\<in>?C. rk_fp A ?K st n) = rk_fp A ?K st m + (\<Sum>n\<in>?C - {m}. rk_fp A ?K st n)"
    using finite_cells mC by (rule sum.remove)
  show ?thesis
    unfolding measure_fp_def a b using dec by (simp add: relax_fp_fields)
qed


lemma visit_step_fp:
  assumes acc: "accurate eps A" and sm: "small gs eps" and g: "in_grid gs goal"
    and inv: "inv_all_fp A (slack gs eps) gs ex offs goal start X st"
    and c: "cost_so_far st cur = Some c"
    and d: "d \<in> set directions"
  shows "\<exists>st'. visit_fp A gs ex offs goal cur d st = Inr st' \<and>
               inv_all_fp A (slack gs eps) gs ex offs goal start X st' \<and>
               measure_fp A gs start st' \<le> measure_fp A gs start st \<and>
               (\<forall>n c0. cost_so_far st n = Some c0 \<longrightarrow> (\<exists>c1. cost_so_far st' n = Some c1 \<and> c1 \<le> c0)) \<and>
               cost_so_far st' cur = Some c \<and>
               (ok gs ex offs (fst cur + fst d, snd cur + snd d) \<longrightarrow>
                  (\<exists>cm. cost_so_far st' (fst cur + fst d, snd cur + snd d) = Some cm \<and>
                        cm \<le> c + step_cost cur (fst cur + fst d, snd cur + snd d) + slack gs eps))"
proof -
  let ?m = "(fst cur + fst d, snd cur + snd d)"
  let ?dl = "slack gs eps"
  let ?nc = "fadd A c (fhypot A (fst d) (snd d))"
  let ?pr = "fadd A ?nc (heuristic_fp A goal ?m)"
  from inv have i: "inv_links_fp ?dl gs ex offs start st" "inv_reach gs ex offs start st"
    "inv_front_fp ?dl goal start st" "inv_closed_fp ?dl gs ex offs goal X st" "inv_bound_fp A gs start st"
    by (simp_all add: inv_all_fp_def)
  note a = accurateD[OF acc]
  note f = small_facts[OF a(1) sm]
  have c0: "0 \<le> c" using inv_links_fpD(4)[OF i(1) c] .
  have cK: "c + 2 \<le> real (cap gs)" using inv_bound_fpD(4)[OF i(5) c] .
  have sc: "step_cost cur ?m = hypot (real_of_int (fst d)) (real_of_int (snd d))"
    by (simp add: step_cost_def)
  have dd: "(fst ?m - fst cur, snd ?m - snd cur) \<in> set directions" using d by simp
  have s1: "1 \<le> step_cost cur ?m" "step_cost cur ?m \<le> 3/2"
    using step_cost_dir[OF dd] sqrt2_le by auto
  have ar: "\<bar>?nc - (c + step_cost cur ?m)\<bar> \<le> ?dl / 2"
    unfolding sc by (rule step_arith[OF acc sm c0 cK d])
  have lo: "c + step_cost cur ?m \<le> ?nc + ?dl" using ar f(4) by linarith
  have up: "c < ?nc" "c + 1/2 \<le> ?nc" using ar s1 f(3) by linarith+
  have hi: "?nc \<le> c + 2" using ar s1 f(3) by linarith
  have hi': "?nc \<le> c + step_cost cur ?m + ?dl" using ar f(4) by linarith
  have n0: "0 \<le> ?nc" using up c0 by linarith
  have nK: "?nc \<le> real (cap gs)" using hi cK by linarith
  from visit_fp_cases[OF c, of A gs ex offs goal d]
  show ?thesis
  proof
    assume a: "visit_fp A gs ex offs goal cur d st = Inr st \<and>
            (ok gs ex offs ?m \<longrightarrow> (\<exists>old. cost_so_far st ?m = Some old \<and> old \<le> ?nc))"
    have "\<exists>cm. cost_so_far st ?m = Some cm \<and> cm \<le> c + step_cost cur ?m + ?dl" if "ok gs ex offs ?m"
    proof -
      from a that obtain old where "cost_so_far st ?m = Some old" "old \<le> ?nc" by blast
      with hi' show ?thesis by auto
    qed
    with a inv c show ?thesis by auto
  next
    assume a: "ok gs ex offs ?m \<and>
          (\<forall>old. cost_so_far st ?m = Some old \<longrightarrow> ?nc < old) \<and>
          visit_fp A gs ex offs goal cur d st = Inr (relax_fp st cur ?m ?nc ?pr)"
    then have okm: "ok gs ex offs ?m"
      and lt: "\<forall>old. cost_so_far st ?m = Some old \<longrightarrow> ?nc < old"
      and v: "visit_fp A gs ex offs goal cur d st = Inr (relax_fp st cur ?m ?nc ?pr)"
      by simp_all
    have mv: "move gs ex offs cur ?m" using okm d by (simp add: move_def)
    have mg: "in_grid gs ?m" using okm by (simp add: ok_def)
    have pa: "\<bar>?pr - (?nc + heuristic goal ?m)\<bar> \<le> ?dl"
      by (rule prio_arith[OF acc sm n0 nK g mg])
    have p1: "?nc + heuristic goal ?m \<le> ?pr + ?dl" and p2: "?pr \<le> ?nc + heuristic goal ?m + ?dl"
      using pa by linarith+
    have eq: "?nc = fadd A c (fhypot A (fst ?m - fst cur) (snd ?m - snd cur))" by simp
    let ?st = "relax_fp st cur ?m ?nc ?pr"
    have b': "inv_bound_fp A gs start ?st"
      by (rule relax_bound_fp[OF i(5) c mv lt up(2) hi eq])
    have "inv_all_fp A ?dl gs ex offs goal start X ?st"
      unfolding inv_all_fp_def
      using relax_links_fp[OF i(1) c mv lt lo up(1)] relax_reach_fp[OF i(2) c mv]
        relax_front_fp[OF i(3) lt p1] relax_closed_fp[OF i(4) lt p2] b'
      by blast
    moreover have "measure_fp A gs start ?st < measure_fp A gs start st"
      by (rule relax_measure_fp[OF i(5) b' mg lt])
    moreover have "\<exists>c1. cost_so_far ?st n = Some c1 \<and> c1 \<le> c0" if "cost_so_far st n = Some c0" for n c0
    proof (cases "n = ?m")
      case True
      with that lt have "?nc < c0" by simp
      then show ?thesis using True by (simp add: relax_fp_fields)
    next
      case False
      then show ?thesis using that by (simp add: relax_fp_fields)
    qed
    moreover have "cost_so_far ?st cur = Some c" using c move_step(3)[OF mv] by (simp add: relax_fp_fields)
    moreover have "cost_so_far ?st ?m = Some ?nc" by (simp add: relax_fp_fields)
    ultimately show ?thesis using v hi' by auto
  qed
qed

lemma visit_fp_mono:
  assumes "visit_fp A gs ex offs goal cur d st = Inr st'" and "cost_so_far st n = Some c0"
  shows "\<exists>c1. cost_so_far st' n = Some c1 \<and> c1 \<le> c0"
proof -
  let ?m = "(fst cur + fst d, snd cur + snd d)"
  from assms(1) have "st' = st \<or>
      (\<exists>nc pr. (case cost_so_far st ?m of None \<Rightarrow> True | Some old \<Rightarrow> nc < old) \<and>
         cost_so_far st' = (cost_so_far st)(?m \<mapsto> nc))"
    unfolding visit_fp_def Let_def by (auto split: if_splits option.splits)
  then show ?thesis
  proof
    assume "st' = st" then show ?thesis using assms(2) by simp
  next
    assume "\<exists>nc pr. (case cost_so_far st ?m of None \<Rightarrow> True | Some old \<Rightarrow> nc < old) \<and>
         cost_so_far st' = (cost_so_far st)(?m \<mapsto> nc)"
    then obtain nc where nc: "case cost_so_far st ?m of None \<Rightarrow> True | Some old \<Rightarrow> nc < old"
      "cost_so_far st' = (cost_so_far st)(?m \<mapsto> nc)" by blast
    show ?thesis
    proof (cases "n = ?m")
      case True
      with nc assms(2) show ?thesis by simp
    next
      case False
      with nc assms(2) show ?thesis by simp
    qed
  qed
qed

lemma visit_all_fp_mono:
  assumes "visit_all_fp A gs ex offs goal cur ds st = Inr st'" and "cost_so_far st n = Some c0"
  shows "\<exists>c1. cost_so_far st' n = Some c1 \<and> c1 \<le> c0"
  using assms
proof (induction ds arbitrary: st c0)
  case Nil
  then show ?case by simp
next
  case (Cons d ds)
  from Cons.prems(1) obtain st1 where v: "visit_fp A gs ex offs goal cur d st = Inr st1"
    and v2: "visit_all_fp A gs ex offs goal cur ds st1 = Inr st'"
    by (auto split: sum.splits)
  from visit_fp_mono[OF v Cons.prems(2)] obtain c1 where c1: "cost_so_far st1 n = Some c1" "c1 \<le> c0" by blast
  from Cons.IH[OF v2 c1(1)] c1(2) show ?case by force
qed

lemma visit_all_steps_fp:
  assumes acc: "accurate eps A" and sm: "small gs eps" and g: "in_grid gs goal"
  shows "inv_all_fp A (slack gs eps) gs ex offs goal start X st \<Longrightarrow>
         cost_so_far st cur = Some c \<Longrightarrow> set ds \<subseteq> set directions \<Longrightarrow>
         \<exists>st'. visit_all_fp A gs ex offs goal cur ds st = Inr st' \<and>
               inv_all_fp A (slack gs eps) gs ex offs goal start X st' \<and>
               measure_fp A gs start st' \<le> measure_fp A gs start st \<and>
               cost_so_far st' cur = Some c \<and>
               (\<forall>d\<in>set ds. ok gs ex offs (fst cur + fst d, snd cur + snd d) \<longrightarrow>
                  (\<exists>cm. cost_so_far st' (fst cur + fst d, snd cur + snd d) = Some cm \<and>
                        cm \<le> c + step_cost cur (fst cur + fst d, snd cur + snd d) + slack gs eps))"
proof (induction ds arbitrary: st)
  case Nil
  then show ?case by simp
next
  case (Cons d ds)
  let ?dl = "slack gs eps"
  have d: "d \<in> set directions" and ds: "set ds \<subseteq> set directions" using Cons.prems(3) by simp_all
  from visit_step_fp[OF acc sm g Cons.prems(1,2) d] obtain st1 where
    v: "visit_fp A gs ex offs goal cur d st = Inr st1"
    and i1: "inv_all_fp A ?dl gs ex offs goal start X st1"
    and m1: "measure_fp A gs start st1 \<le> measure_fp A gs start st"
    and c1: "cost_so_far st1 cur = Some c"
    and n1: "ok gs ex offs (fst cur + fst d, snd cur + snd d) \<longrightarrow>
                  (\<exists>cm. cost_so_far st1 (fst cur + fst d, snd cur + snd d) = Some cm \<and>
                        cm \<le> c + step_cost cur (fst cur + fst d, snd cur + snd d) + ?dl)"
    by blast
  have "\<exists>st2. visit_all_fp A gs ex offs goal cur ds st1 = Inr st2 \<and>
               inv_all_fp A ?dl gs ex offs goal start X st2 \<and>
               measure_fp A gs start st2 \<le> measure_fp A gs start st1 \<and>
               cost_so_far st2 cur = Some c \<and>
               (\<forall>d\<in>set ds. ok gs ex offs (fst cur + fst d, snd cur + snd d) \<longrightarrow>
                  (\<exists>cm. cost_so_far st2 (fst cur + fst d, snd cur + snd d) = Some cm \<and>
                        cm \<le> c + step_cost cur (fst cur + fst d, snd cur + snd d) + ?dl))"
    by (rule Cons.IH[OF i1 c1 ds])
  then obtain st2 where
    v2: "visit_all_fp A gs ex offs goal cur ds st1 = Inr st2"
    and i2: "inv_all_fp A ?dl gs ex offs goal start X st2"
    and m2: "measure_fp A gs start st2 \<le> measure_fp A gs start st1"
    and c2: "cost_so_far st2 cur = Some c"
    and n2: "\<forall>d\<in>set ds. ok gs ex offs (fst cur + fst d, snd cur + snd d) \<longrightarrow>
                  (\<exists>cm. cost_so_far st2 (fst cur + fst d, snd cur + snd d) = Some cm \<and>
                        cm \<le> c + step_cost cur (fst cur + fst d, snd cur + snd d) + ?dl)"
    by blast
  have mono: "\<exists>c1. cost_so_far st2 n = Some c1 \<and> c1 \<le> c0" if "cost_so_far st1 n = Some c0" for n c0
    using visit_all_fp_mono[OF v2 that] .
  have "visit_all_fp A gs ex offs goal cur (d # ds) st = Inr st2" using v v2 by simp
  moreover have "measure_fp A gs start st2 \<le> measure_fp A gs start st" using m1 m2 by simp
  moreover have "\<forall>e\<in>set (d # ds). ok gs ex offs (fst cur + fst e, snd cur + snd e) \<longrightarrow>
                  (\<exists>cm. cost_so_far st2 (fst cur + fst e, snd cur + snd e) = Some cm \<and>
                        cm \<le> c + step_cost cur (fst cur + fst e, snd cur + snd e) + ?dl)"
  proof
    fix e assume e: "e \<in> set (d # ds)"
    show "ok gs ex offs (fst cur + fst e, snd cur + snd e) \<longrightarrow>
                  (\<exists>cm. cost_so_far st2 (fst cur + fst e, snd cur + snd e) = Some cm \<and>
                        cm \<le> c + step_cost cur (fst cur + fst e, snd cur + snd e) + ?dl)"
    proof (cases "e \<in> set ds")
      case True
      with n2 show ?thesis by blast
    next
      case False
      with e have ed: "e = d" by simp
      show ?thesis
      proof
        assume "ok gs ex offs (fst cur + fst e, snd cur + snd e)"
        with n1 ed obtain cm where cm: "cost_so_far st1 (fst cur + fst e, snd cur + snd e) = Some cm"
          "cm \<le> c + step_cost cur (fst cur + fst e, snd cur + snd e) + ?dl" by blast
        from mono[OF cm(1)] cm(2) show "\<exists>cm. cost_so_far st2 (fst cur + fst e, snd cur + snd e) = Some cm \<and>
                        cm \<le> c + step_cost cur (fst cur + fst e, snd cur + snd e) + ?dl"
          by force
      qed
    qed
  qed
  ultimately show ?case using i2 c2 by blast
qed


lemma pop_inv_fp:
  assumes inv: "inv_all_fp A dl gs ex offs goal start {} st" and f: "frontier st = item # rest"
  shows "inv_all_fp A dl gs ex offs goal start {snd item} (st\<lparr>frontier := rest\<rparr>)"
    "measure_fp A gs start (st\<lparr>frontier := rest\<rparr>) < measure_fp A gs start st"
    "\<exists>c. cost_so_far st (snd item) = Some c \<and>
         (snd item = start \<or> c + heuristic goal (snd item) \<le> fst item + dl)"
    "\<forall>e \<in> set (frontier st). fst item \<le> fst e"
proof -
  from inv have i: "inv_links_fp dl gs ex offs start st" "inv_reach gs ex offs start st"
      "inv_front_fp dl goal start st" "inv_closed_fp dl gs ex offs goal {} st" "inv_bound_fp A gs start st"
    by (simp_all add: inv_all_fp_def)
  show "\<exists>c. cost_so_far st (snd item) = Some c \<and>
         (snd item = start \<or> c + heuristic goal (snd item) \<le> fst item + dl)"
    using i(3) f unfolding inv_front_fp_def by simp
  have srt: "sorted (item # rest)" using i(3) f by (simp add: inv_front_fp_def)
  show "\<forall>e \<in> set (frontier st). fst item \<le> fst e"
  proof
    fix e assume "e \<in> set (frontier st)"
    then have "item \<le> e" using srt f by auto
    then show "fst item \<le> fst e" by (auto simp: less_eq_prod_def)
  qed
  show "measure_fp A gs start (st\<lparr>frontier := rest\<rparr>) < measure_fp A gs start st"
    using f by (simp add: measure_fp_def rk_fp_def)
  have "inv_links_fp dl gs ex offs start (st\<lparr>frontier := rest\<rparr>)" using i(1) by (simp add: inv_links_fp_def)
  moreover have "inv_reach gs ex offs start (st\<lparr>frontier := rest\<rparr>)" using i(2) by (simp add: inv_reach_def)
  moreover have "inv_front_fp dl goal start (st\<lparr>frontier := rest\<rparr>)" using i(3) f by (simp add: inv_front_fp_def)
  moreover have "inv_bound_fp A gs start (st\<lparr>frontier := rest\<rparr>)" using i(5) by (simp add: inv_bound_fp_def)
  moreover have "inv_closed_fp dl gs ex offs goal {snd item} (st\<lparr>frontier := rest\<rparr>)"
    unfolding inv_closed_fp_def
  proof (intro allI impI)
    fix n c assume "cost_so_far (st\<lparr>frontier := rest\<rparr>) n = Some c"
    then have n: "cost_so_far st n = Some c" by simp
    with i(4) have "n \<in> {} \<or> (\<exists>pr. pr \<le> c + heuristic goal n + dl \<and> (pr, n) \<in> set (frontier st)) \<or>
         (\<forall>m. move gs ex offs n m \<longrightarrow> (\<exists>cm. cost_so_far st m = Some cm \<and> cm \<le> c + step_cost n m + dl))"
      unfolding inv_closed_fp_def by blast
    then show "n \<in> {snd item} \<or>
         (\<exists>pr. pr \<le> c + heuristic goal n + dl \<and> (pr, n) \<in> set (frontier (st\<lparr>frontier := rest\<rparr>))) \<or>
         (\<forall>m. move gs ex offs n m \<longrightarrow>
              (\<exists>cm. cost_so_far (st\<lparr>frontier := rest\<rparr>) m = Some cm \<and> cm \<le> c + step_cost n m + dl))"
      using f by auto
  qed
  ultimately show "inv_all_fp A dl gs ex offs goal start {snd item} (st\<lparr>frontier := rest\<rparr>)"
    by (simp add: inv_all_fp_def)
qed

lemma close_current_fp:
  assumes inv: "inv_all_fp A dl gs ex offs goal start {cur} st"
    and c: "cost_so_far st cur = Some c"
    and all: "\<forall>d\<in>set directions. ok gs ex offs (fst cur + fst d, snd cur + snd d) \<longrightarrow>
                  (\<exists>cm. cost_so_far st (fst cur + fst d, snd cur + snd d) = Some cm \<and>
                        cm \<le> c + step_cost cur (fst cur + fst d, snd cur + snd d) + dl)"
  shows "inv_all_fp A dl gs ex offs goal start {} st"
proof -
  have cl: "\<exists>cm. cost_so_far st m = Some cm \<and> cm \<le> c + step_cost cur m + dl" if mv: "move gs ex offs cur m" for m
  proof -
    let ?d = "(fst m - fst cur, snd m - snd cur)"
    have d: "?d \<in> set directions" and o: "ok gs ex offs m" using mv by (simp_all add: move_def)
    have e: "(fst cur + fst ?d, snd cur + snd ?d) = m" by simp
    from all d have "ok gs ex offs (fst cur + fst ?d, snd cur + snd ?d) \<longrightarrow>
                  (\<exists>cm. cost_so_far st (fst cur + fst ?d, snd cur + snd ?d) = Some cm \<and>
                        cm \<le> c + step_cost cur (fst cur + fst ?d, snd cur + snd ?d) + dl)"
      by (rule bspec)
    then show ?thesis unfolding e using o by simp
  qed
  have "inv_closed_fp dl gs ex offs goal {} st"
    unfolding inv_closed_fp_def
  proof (intro allI impI)
    fix n cn assume n: "cost_so_far st n = Some cn"
    from inv have "inv_closed_fp dl gs ex offs goal {cur} st" by (simp add: inv_all_fp_def)
    with n have "n \<in> {cur} \<or> (\<exists>pr. pr \<le> cn + heuristic goal n + dl \<and> (pr, n) \<in> set (frontier st)) \<or>
         (\<forall>m. move gs ex offs n m \<longrightarrow> (\<exists>cm. cost_so_far st m = Some cm \<and> cm \<le> cn + step_cost n m + dl))"
      unfolding inv_closed_fp_def by blast
    then show "n \<in> {} \<or> (\<exists>pr. pr \<le> cn + heuristic goal n + dl \<and> (pr, n) \<in> set (frontier st)) \<or>
         (\<forall>m. move gs ex offs n m \<longrightarrow> (\<exists>cm. cost_so_far st m = Some cm \<and> cm \<le> cn + step_cost n m + dl))"
    proof (elim disjE)
      assume "n \<in> {cur}"
      then have "n = cur" by simp
      with n c have "cn = c" by simp
      with cl \<open>n = cur\<close> show ?thesis by blast
    qed blast+
  qed
  with inv show ?thesis by (simp add: inv_all_fp_def)
qed

lemma route_progress_fp:
  assumes inv: "inv_all_fp A dl gs ex offs goal start {} st" and dl: "0 \<le> dl"
    and r: "is_route gs ex offs start z xs"
  shows "(\<exists>c. cost_so_far st z = Some c \<and> c \<le> path_len xs + dl * real (length xs)) \<or>
         (\<exists>e\<in>set (frontier st). fst e \<le> path_len xs + heuristic goal z + dl * real (length xs))"
  using r
proof (induction xs arbitrary: z rule: rev_induct)
  case Nil
  then show ?case by (simp add: is_route_def)
next
  case (snoc y xs)
  from snoc.prems have z: "z = y" by (simp add: is_route_def)
  have ln: "dl * real (length (xs @ [y])) = dl * real (length xs) + dl" by (simp add: algebra_simps)
  show ?case
  proof (cases "xs = []")
    case True
    with snoc.prems have "y = start" by (simp add: is_route_def)
    moreover from inv have "inv_links_fp dl gs ex offs start st" by (simp add: inv_all_fp_def)
    ultimately have "cost_so_far st z = Some 0" using z inv_links_fpD(1) by simp
    then show ?thesis using True dl by simp
  next
    case False
    let ?w = "last xs"
    from snoc.prems False have rt: "is_route gs ex offs start ?w xs" and mv: "move gs ex offs ?w y"
      by (auto simp: is_route_def successively_append_iff)
    have pl: "path_len (xs @ [y]) = path_len xs + step_cost ?w y" using False by (rule path_len_snoc)
    have tri: "heuristic goal ?w \<le> step_cost ?w y + heuristic goal y" by (rule heuristic_triangle)
    from snoc.IH[OF rt] show ?thesis
    proof
      assume "\<exists>e\<in>set (frontier st). fst e \<le> path_len xs + heuristic goal ?w + dl * real (length xs)"
      then obtain e where e: "e \<in> set (frontier st)"
        "fst e \<le> path_len xs + heuristic goal ?w + dl * real (length xs)" by blast
      have "fst e \<le> path_len (xs @ [y]) + heuristic goal z + dl * real (length (xs @ [y]))"
        unfolding ln using e(2) pl tri dl unfolding z by linarith
      with e(1) show ?thesis by blast
    next
      assume "\<exists>c. cost_so_far st ?w = Some c \<and> c \<le> path_len xs + dl * real (length xs)"
      then obtain c where c: "cost_so_far st ?w = Some c" "c \<le> path_len xs + dl * real (length xs)" by blast
      from inv have "inv_closed_fp dl gs ex offs goal {} st" by (simp add: inv_all_fp_def)
      with c(1) have "(\<exists>pr. pr \<le> c + heuristic goal ?w + dl \<and> (pr, ?w) \<in> set (frontier st)) \<or>
         (\<forall>m. move gs ex offs ?w m \<longrightarrow> (\<exists>cm. cost_so_far st m = Some cm \<and> cm \<le> c + step_cost ?w m + dl))"
        unfolding inv_closed_fp_def by blast
      then show ?thesis
      proof
        assume "\<exists>pr. pr \<le> c + heuristic goal ?w + dl \<and> (pr, ?w) \<in> set (frontier st)"
        then obtain pr where pr: "pr \<le> c + heuristic goal ?w + dl" "(pr, ?w) \<in> set (frontier st)" by blast
        have "fst (pr, ?w) \<le> path_len (xs @ [y]) + heuristic goal z + dl * real (length (xs @ [y]))"
          unfolding ln using pr(1) c(2) pl tri unfolding z by simp
        with pr(2) show ?thesis by blast
      next
        assume "\<forall>m. move gs ex offs ?w m \<longrightarrow> (\<exists>cm. cost_so_far st m = Some cm \<and> cm \<le> c + step_cost ?w m + dl)"
        with mv obtain cm where cm: "cost_so_far st y = Some cm" "cm \<le> c + step_cost ?w y + dl" by blast
        have "cm \<le> path_len (xs @ [y]) + dl * real (length (xs @ [y]))"
          unfolding ln using cm(2) c(2) pl by linarith
        with cm(1) show ?thesis unfolding z by blast
      qed
    qed
  qed
qed

lemma a_star_loop_fp_total:
  assumes acc: "accurate eps A" and sm: "small gs eps" and g: "in_grid gs goal"
  shows "inv_all_fp A (slack gs eps) gs ex offs goal start {} st \<Longrightarrow>
         \<exists>st'. a_star_loop_fp A gs ex offs goal st = Some (Inr st') \<and>
               inv_links_fp (slack gs eps) gs ex offs start st' \<and> inv_reach gs ex offs start st' \<and>
               inv_bound_fp A gs start st' \<and>
               optimal_fp (slack gs eps) gs ex offs goal start st'"
proof (induction "measure_fp A gs start st" arbitrary: st rule: less_induct)
  case less
  let ?dl = "slack gs eps"
  note inv = less.prems
  have dl: "0 \<le> ?dl" using small_facts(4)[OF accurateD(1)[OF acc] sm] .
  from inv have i: "inv_links_fp ?dl gs ex offs start st" "inv_reach gs ex offs start st"
    "inv_bound_fp A gs start st"
    by (simp_all add: inv_all_fp_def)
  show ?case
  proof (cases "frontier st")
    case Nil
    then have "a_star_loop_fp A gs ex offs goal st = Some (Inr st)"
      by (subst a_star_loop_fp.simps) simp
    moreover have "optimal_fp ?dl gs ex offs goal start st"
      unfolding optimal_fp_def
    proof (intro allI impI)
      fix xs assume r: "is_route gs ex offs start goal xs"
      from route_progress_fp[OF inv dl r] Nil obtain c where
        "cost_so_far st goal = Some c" "c \<le> path_len xs + ?dl * real (length xs)" by auto
      moreover have "?dl * real (length xs) \<le> ?dl * (real (length xs) + 1)"
        using dl by (intro mult_left_mono) simp_all
      ultimately show "\<exists>c. cost_so_far st goal = Some c \<and> c \<le> path_len xs + ?dl * (real (length xs) + 1)"
        by auto
    qed
    ultimately show ?thesis using i by blast
  next
    case (Cons item rest)
    let ?st1 = "st\<lparr>frontier := rest\<rparr>"
    note p = pop_inv_fp[OF inv Cons]
    from p(3) obtain c where c: "cost_so_far st (snd item) = Some c"
      "snd item = start \<or> c + heuristic goal (snd item) \<le> fst item + ?dl" by blast
    show ?thesis
    proof (cases "snd item = goal")
      case True
      then have "a_star_loop_fp A gs ex offs goal st = Some (Inr ?st1)"
        using Cons by (subst a_star_loop_fp.simps) (simp add: Let_def)
      moreover have "inv_links_fp ?dl gs ex offs start ?st1" "inv_reach gs ex offs start ?st1"
        "inv_bound_fp A gs start ?st1"
        using p(1) by (simp_all add: inv_all_fp_def)
      moreover have "optimal_fp ?dl gs ex offs goal start ?st1"
        unfolding optimal_fp_def
      proof (intro allI impI)
        fix xs assume r: "is_route gs ex offs start goal xs"
        have c0: "snd item = start \<Longrightarrow> c = 0" using c(1) inv_links_fpD(1)[OF i(1)] by simp
        have ex: "?dl * (real (length xs) + 1) = ?dl * real (length xs) + ?dl" by (simp add: algebra_simps)
        have nn: "0 \<le> ?dl * real (length xs)" using dl by simp
        from route_progress_fp[OF inv dl r]
        have "c \<le> path_len xs + ?dl * (real (length xs) + 1)"
        proof
          assume "\<exists>c'. cost_so_far st goal = Some c' \<and> c' \<le> path_len xs + ?dl * real (length xs)"
          with c(1) True dl show ?thesis unfolding ex by auto
        next
          assume "\<exists>e\<in>set (frontier st). fst e \<le> path_len xs + heuristic goal goal + ?dl * real (length xs)"
          then obtain e where e: "e \<in> set (frontier st)" "fst e \<le> path_len xs + ?dl * real (length xs)"
            by (auto simp: heuristic_self)
          from p(4) e(1) have le: "fst item \<le> fst e" by blast
          from c(2) show ?thesis
          proof
            assume "snd item = start"
            then show ?thesis unfolding ex using c0 path_len_nonneg[of xs] dl nn by simp
          next
            assume "c + heuristic goal (snd item) \<le> fst item + ?dl"
            then have "c \<le> fst item + ?dl" using True by (simp add: heuristic_self)
            with le e(2) show ?thesis unfolding ex by linarith
          qed
        qed
        then show "\<exists>c. cost_so_far ?st1 goal = Some c \<and> c \<le> path_len xs + ?dl * (real (length xs) + 1)"
          using c(1) True by simp
      qed
      ultimately show ?thesis by blast
    next
      case False
      have cur: "cost_so_far ?st1 (snd item) = Some c" using c(1) by simp
      from visit_all_steps_fp[OF acc sm g p(1) cur subset_refl] obtain st2 where
        v: "visit_all_fp A gs ex offs goal (snd item) directions ?st1 = Inr st2"
        and i2: "inv_all_fp A ?dl gs ex offs goal start {snd item} st2"
        and m2: "measure_fp A gs start st2 \<le> measure_fp A gs start ?st1"
        and c2: "cost_so_far st2 (snd item) = Some c"
        and n2: "\<forall>d\<in>set directions. ok gs ex offs (fst (snd item) + fst d, snd (snd item) + snd d) \<longrightarrow>
                  (\<exists>cm. cost_so_far st2 (fst (snd item) + fst d, snd (snd item) + snd d) = Some cm \<and>
                        cm \<le> c + step_cost (snd item) (fst (snd item) + fst d, snd (snd item) + snd d) + ?dl)"
        by blast
      have inv2: "inv_all_fp A ?dl gs ex offs goal start {} st2" by (rule close_current_fp[OF i2 c2 n2])
      have lt: "measure_fp A gs start st2 < measure_fp A gs start st" using m2 p(2) by simp
      have "a_star_loop_fp A gs ex offs goal st = a_star_loop_fp A gs ex offs goal st2"
        using Cons False v by (subst a_star_loop_fp.simps) (simp add: Let_def)
      with less.hyps[OF lt inv2] show ?thesis by simp
    qed
  qed
qed

lemma init_inv_fp:
  assumes dl: "0 \<le> dl"
  shows "inv_all_fp A dl gs ex offs goal start {}
     \<lparr> frontier = [(0, start)], came_from = [start \<mapsto> None], cost_so_far = [start \<mapsto> 0] \<rparr>"
proof -
  let ?st = "\<lparr> frontier = [(0, start)], came_from = [start \<mapsto> None], cost_so_far = [start \<mapsto> 0 :: real] \<rparr>"
  have "inv_links_fp dl gs ex offs start ?st"
    unfolding inv_links_fp_def by (simp split: if_splits)
  moreover have "inv_reach gs ex offs start ?st"
    unfolding inv_reach_def by (simp split: if_splits)
  moreover have "inv_front_fp dl goal start ?st"
    unfolding inv_front_fp_def by simp
  moreover have "inv_closed_fp dl gs ex offs goal {} ?st"
    unfolding inv_closed_fp_def
  proof (intro allI impI)
    fix n c assume "cost_so_far ?st n = Some c"
    then have "n = start" "c = 0" by (simp_all split: if_splits)
    then have "0 \<le> c + heuristic goal n + dl \<and> (0, n) \<in> set (frontier ?st)"
      using heuristic_nonneg[of goal n] dl by simp
    then show "n \<in> {} \<or> (\<exists>pr. pr \<le> c + heuristic goal n + dl \<and> (pr, n) \<in> set (frontier ?st)) \<or>
         (\<forall>m. move gs ex offs n m \<longrightarrow> (\<exists>cm. cost_so_far ?st m = Some cm \<and> cm \<le> c + step_cost n m + dl))"
      by blast
  qed
  moreover have "inv_bound_fp A gs start ?st"
  proof -
    have "\<exists>ds. set ds \<subseteq> set directions \<and> (0 :: real) = cval A ds \<and> real (length ds) \<le> 2 * 0"
      by (rule exI[of _ "[]"]) (simp add: cval_def)
    then show ?thesis unfolding inv_bound_fp_def by (simp add: cells_def split: if_splits)
  qed
  ultimately show ?thesis by (simp add: inv_all_fp_def)
qed

lemma walk_back_chain_fp:
  assumes inv: "inv_links_fp dl gs ex offs start st" and dl: "0 \<le> dl" "dl \<le> 1/2"
  shows "cost_so_far st n = Some c \<Longrightarrow>
         \<exists>ns. walk_back (came_from st) (Some n) p = Some (p @ map to_float ns) \<and>
              is_route gs ex offs start n (rev ns) \<and>
              path_len (rev ns) \<le> c + dl * (real (length ns) - 1) \<and>
              real (length ns) - 1 \<le> 2 * c \<and>
              (n = start \<longrightarrow> ns = [n])"
proof (induction "nat \<lfloor>2 * c\<rfloor>" arbitrary: n c p rule: less_induct)
  case less
  note d = inv_links_fpD[OF inv]
  have c0: "0 \<le> c" using d(4)[OF less.prems] .
  from less.prems have "n \<in> dom (came_from st)" using d(3) by auto
  then obtain par where par: "came_from st n = Some par" by auto
  show ?case
  proof (cases par)
    case None
    with par have ns: "n = start" using d(5) by simp
    have "walk_back (came_from st) (Some n) p = Some (p @ map to_float [n])"
      using par None by (subst walk_back.simps, simp, subst walk_back.simps, simp)
    moreover have "is_route gs ex offs start n (rev [n])" using ns by (simp add: is_route_def)
    moreover have "path_len (rev [n]) \<le> c + dl * (real (length [n]) - 1)" using c0 by simp
    moreover have "real (length [n]) - 1 \<le> 2 * c" using c0 by simp
    ultimately show ?thesis by blast
  next
    case (Some q)
    with par have pq: "came_from st n = Some (Some q)" by simp
    from d(6)[OF pq] less.prems obtain cq where mv: "move gs ex offs q n"
      and cq: "cost_so_far st q = Some cq" and le: "cq + step_cost q n \<le> c + dl"
      by auto
    have nst: "n \<noteq> start" using pq d(2) by auto
    have half: "cq + 1/2 \<le> c" using le move_step(1)[OF mv] dl by linarith
    moreover have q0: "0 \<le> cq" using d(4)[OF cq] .
    ultimately have "nat \<lfloor>2 * cq\<rfloor> < nat \<lfloor>2 * c\<rfloor>" by linarith
    from less.hyps[OF this cq, of "p @ [to_float n]"] obtain ns where
      w: "walk_back (came_from st) (Some q) (p @ [to_float n]) = Some ((p @ [to_float n]) @ map to_float ns)"
      and r: "is_route gs ex offs start q (rev ns)"
      and pl: "path_len (rev ns) \<le> cq + dl * (real (length ns) - 1)"
      and ln: "real (length ns) - 1 \<le> 2 * cq"
      by blast
    have "walk_back (came_from st) (Some n) p = Some (p @ map to_float (n # ns))"
      using pq w by (subst walk_back.simps) simp
    moreover have "is_route gs ex offs start n (rev (n # ns))"
      using r mv by (auto simp: is_route_def successively_append_iff)
    moreover have "path_len (rev (n # ns)) \<le> c + dl * (real (length (n # ns)) - 1)"
    proof -
      have ne: "rev ns \<noteq> []" and l: "last (rev ns) = q" using r by (simp_all add: is_route_def)
      have "path_len (rev (n # ns)) = path_len (rev ns) + step_cost q n"
        using path_len_snoc[OF ne, of n] l by simp
      moreover have "dl * (real (length (n # ns)) - 1) = dl * (real (length ns) - 1) + dl"
        by (simp add: algebra_simps)
      ultimately show ?thesis using pl le by linarith
    qed
    moreover have "real (length (n # ns)) - 1 \<le> 2 * c" using ln half by simp
    ultimately show ?thesis using nst by blast
  qed
qed


lemma a_star_fp_KeyError:
  assumes "relative_offsets (initial_positions g) (center_id g) = Inl e"
  shows "a_star_fp A g start goal obs gs =
           Some (Inl e, g\<lparr>expanded_obstacles :=
                   expand (expanded_obstacles g) obs (current_shape_type g) (safety_margin g) gs\<rparr>)"
  using assms by (simp add: a_star_fp_def Let_def)

lemma a_star_fp_total:
  assumes ro: "relative_offsets (initial_positions g) (center_id g) = Inr ro"
    and ex: "ex = expand (expanded_obstacles g) obs (current_shape_type g) (safety_margin g) gs"
    and offs: "offs = map snd ro"
    and acc: "accurate eps A" and sm: "small gs eps" and gg: "in_grid gs goal"
  shows "\<exists>cs. a_star_fp A g start goal obs gs = Some (Inr (map to_float cs), g\<lparr>expanded_obstacles := ex\<rparr>) \<and>
              (if (move gs ex offs)\<^sup>*\<^sup>* start goal
               then is_route gs ex offs start goal cs \<and>
                    (start = goal \<longrightarrow> cs = [start]) \<and>
                    (\<exists>c. 0 \<le> c \<and> c + 2 \<le> real (cap gs) \<and>
                         path_len cs \<le> c + slack gs eps * (2 * c) \<and>
                         real (length cs) - 1 \<le> 2 * c \<and>
                         (\<forall>xs. is_route gs ex offs start goal xs \<longrightarrow>
                               c \<le> path_len xs + slack gs eps * (real (length xs) + 1)))
               else cs = [])"
proof -
  let ?dl = "slack gs eps"
  let ?st0 = "\<lparr> frontier = [(0, start)], came_from = [start \<mapsto> None], cost_so_far = [start \<mapsto> 0 :: real] \<rparr>"
  note f = small_facts[OF accurateD(1)[OF acc] sm]
  have dl: "0 \<le> ?dl" "?dl \<le> 1/2" using f(3,4) by simp_all
  from a_star_loop_fp_total[OF acc sm gg init_inv_fp[OF dl(1)], of ex offs start] obtain st where
    l: "a_star_loop_fp A gs ex offs goal ?st0 = Some (Inr st)"
    and il: "inv_links_fp ?dl gs ex offs start st" and ir: "inv_reach gs ex offs start st"
    and ib: "inv_bound_fp A gs start st"
    and opt: "optimal_fp ?dl gs ex offs goal start st"
    by blast
  have unf: "a_star_fp A g start goal obs gs =
      (case walk_back (came_from st) (Some goal) [] of
         None \<Rightarrow> None
       | Some p \<Rightarrow> Some (Inr (rev p), g\<lparr>expanded_obstacles := ex\<rparr>))"
    using ro l by (simp add: a_star_fp_def Let_def ex[symmetric] offs[symmetric])
  show ?thesis
  proof (cases "cost_so_far st goal")
    case None
    then have "came_from st goal = None" using inv_links_fpD(3)[OF il] by auto
    then have "walk_back (came_from st) (Some goal) [] = Some []"
      by (subst walk_back.simps) simp
    then have "a_star_fp A g start goal obs gs = Some (Inr (map to_float []), g\<lparr>expanded_obstacles := ex\<rparr>)"
      using unf by simp
    moreover have "\<not> (move gs ex offs)\<^sup>*\<^sup>* start goal"
    proof
      assume "(move gs ex offs)\<^sup>*\<^sup>* start goal"
      then obtain xs where "is_route gs ex offs start goal xs" using reach_route by blast
      with opt None show False by (auto simp: optimal_fp_def)
    qed
    ultimately show ?thesis by (intro exI[of _ "[]"]) simp
  next
    case (Some c)
    from walk_back_chain_fp[OF il dl Some, of "[]"] obtain ns where
      w: "walk_back (came_from st) (Some goal) [] = Some (map to_float ns)"
      and r: "is_route gs ex offs start goal (rev ns)"
      and pl: "path_len (rev ns) \<le> c + ?dl * (real (length ns) - 1)"
      and ln: "real (length ns) - 1 \<le> 2 * c"
      and s: "goal = start \<longrightarrow> ns = [goal]"
      by auto
    have a: "a_star_fp A g start goal obs gs = Some (Inr (map to_float (rev ns)), g\<lparr>expanded_obstacles := ex\<rparr>)"
      using unf w by (simp add: rev_map)
    have re: "(move gs ex offs)\<^sup>*\<^sup>* start goal" using ir Some by (auto simp: inv_reach_def)
    have c0: "0 \<le> c" using inv_links_fpD(4)[OF il Some] .
    have cK: "c + 2 \<le> real (cap gs)" using inv_bound_fpD(4)[OF ib Some] .
    have "?dl * (real (length ns) - 1) \<le> ?dl * (2 * c)" using ln dl(1) by (rule mult_left_mono)
    with pl have pl': "path_len (rev ns) \<le> c + ?dl * (2 * c)" by linarith
    have o: "c \<le> path_len xs + ?dl * (real (length xs) + 1)" if "is_route gs ex offs start goal xs" for xs
    proof -
      from opt that obtain c' where "cost_so_far st goal = Some c'"
        "c' \<le> path_len xs + ?dl * (real (length xs) + 1)"
        by (auto simp: optimal_fp_def)
      with Some show ?thesis by simp
    qed
    have "\<exists>c. 0 \<le> c \<and> c + 2 \<le> real (cap gs) \<and>
              path_len (rev ns) \<le> c + ?dl * (2 * c) \<and>
              real (length (rev ns)) - 1 \<le> 2 * c \<and>
              (\<forall>xs. is_route gs ex offs start goal xs \<longrightarrow>
                    c \<le> path_len xs + ?dl * (real (length xs) + 1))"
      using c0 cK pl' ln o by (intro exI[of _ c]) simp
    moreover have "start = goal \<longrightarrow> rev ns = [start]" using s by auto
    ultimately show ?thesis using a re r by (intro exI[of _ "rev ns"]) simp
  qed
qed

lemma sq_two_nat:
  fixes m n :: nat
  shows "m * m = 2 * (n * n) \<Longrightarrow> n = 0"
proof (induction m arbitrary: n rule: less_induct)
  case (less m)
  show ?case
  proof (cases "m = 0")
    case True
    with less.prems show ?thesis by simp
  next
    case False
    from less.prems have "even (m * m)" by simp
    then have "even m" by simp
    then obtain k where k: "m = 2 * k" by (auto elim: evenE)
    with less.prems have nk: "n * n = 2 * (k * k)" by simp
    have "n < m"
    proof (rule ccontr)
      assume "\<not> n < m"
      then have "m \<le> n" by simp
      then have "m * m \<le> n * n" by (simp add: mult_le_mono)
      with less.prems have "n * n = 0" by linarith
      with less.prems False show False by simp
    qed
    from less.IH[OF this nk] have "k = 0" .
    with k False show ?thesis by simp
  qed
qed

lemma sq_two_int:
  fixes p q :: int
  assumes "p * p = 2 * (q * q)"
  shows "p = 0 \<and> q = 0"
proof -
  have "int (nat \<bar>p\<bar> * nat \<bar>p\<bar>) = int (2 * (nat \<bar>q\<bar> * nat \<bar>q\<bar>))"
    using assms by (simp add: abs_mult_self_eq)
  then have "nat \<bar>p\<bar> * nat \<bar>p\<bar> = 2 * (nat \<bar>q\<bar> * nat \<bar>q\<bar>)" by (simp only: of_nat_eq_iff)
  from sq_two_nat[OF this] have "q = 0" by simp
  with assms show ?thesis by simp
qed

lemma sqrt2_gap:
  fixes p q :: int
  assumes p: "\<bar>real_of_int p\<bar> \<le> N" and q: "\<bar>real_of_int q\<bar> \<le> N"
    and pos: "0 < real_of_int p + real_of_int q * sqrt 2"
  shows "1 \<le> 3 * N * (real_of_int p + real_of_int q * sqrt 2)"
proof -
  define D where "D = p * p - 2 * (q * q)"
  have "D \<noteq> 0"
  proof
    assume "D = 0"
    then have "p * p = 2 * (q * q)" by (simp add: D_def)
    from sq_two_int[OF this] pos show False by simp
  qed
  then have "1 \<le> \<bar>D\<bar>" by linarith
  then have d1: "1 \<le> \<bar>real_of_int D\<bar>" by (metis of_int_1_le_iff of_int_abs)
  have s2: "sqrt 2 * sqrt 2 = 2" by simp
  have "real_of_int D = real_of_int p * real_of_int p - 2 * (real_of_int q * real_of_int q)"
    by (simp add: D_def)
  also have "\<dots> = (real_of_int p + real_of_int q * sqrt 2) * (real_of_int p - real_of_int q * sqrt 2)"
    using s2 by (simp add: algebra_simps)
  finally have "\<bar>real_of_int D\<bar> = (real_of_int p + real_of_int q * sqrt 2) * \<bar>real_of_int p - real_of_int q * sqrt 2\<bar>"
    using pos by (simp add: abs_mult)
  moreover have "\<bar>real_of_int p - real_of_int q * sqrt 2\<bar> \<le> 3 * N"
  proof -
    have "\<bar>real_of_int q * sqrt 2\<bar> = \<bar>real_of_int q\<bar> * sqrt 2" by (simp add: abs_mult)
    also have "\<dots> \<le> N * sqrt 2" using q by (intro mult_right_mono) simp_all
    also have "\<dots> \<le> N * 2"
    proof -
      have "0 \<le> N" using p by linarith
      then show ?thesis using sqrt2_bounds(2) by (intro mult_left_mono) simp_all
    qed
    finally have "\<bar>real_of_int q * sqrt 2\<bar> \<le> 2 * N" by simp
    with p show ?thesis by linarith
  qed
  ultimately have "\<bar>real_of_int D\<bar> \<le> (real_of_int p + real_of_int q * sqrt 2) * (3 * N)"
    using pos by (simp add: mult_left_mono)
  with d1 show ?thesis by (simp add: algebra_simps)
qed


lemma king_len:
  assumes "successively king xs" and "xs \<noteq> []"
  shows "\<exists>a b :: nat. path_len xs = real a + real b * sqrt 2 \<and> a + b + 1 = length xs"
  using assms
proof (induction xs rule: path_len.induct)
  case 1
  then show ?case by simp
next
  case (2 a)
  have "path_len [a] = real 0 + real 0 * sqrt 2 \<and> 0 + 0 + 1 = length [a]" by simp
  then show ?case by blast
next
  case (3 a b rest)
  from 3 have k: "king a b" and s: "successively king (b # rest)" by simp_all
  from 3 s obtain x y :: nat where
    xy: "path_len (b # rest) = real x + real y * sqrt 2" "x + y + 1 = length (b # rest)" by auto
  from k have "step_cost a b = 1 \<or> step_cost a b = sqrt 2"
    unfolding king_def by (rule step_cost_dir)
  then show ?case
  proof
    assume "step_cost a b = 1"
    then have "path_len (a # b # rest) = real (Suc x) + real y * sqrt 2 \<and>
               Suc x + y + 1 = length (a # b # rest)"
      using xy by simp
    then show ?thesis by blast
  next
    assume "step_cost a b = sqrt 2"
    then have "path_len (a # b # rest) = real x + real (Suc y) * sqrt 2 \<and>
               x + Suc y + 1 = length (a # b # rest)"
      using xy by (simp add: algebra_simps)
    then show ?thesis by blast
  qed
qed

lemma king_len_le:
  assumes "successively king xs" and "xs \<noteq> []"
  shows "real (length xs) - 1 \<le> path_len xs"
proof -
  from king_len[OF assms] obtain a b :: nat where
    ab: "path_len xs = real a + real b * sqrt 2" "a + b + 1 = length xs" by blast
  have "real b * 1 \<le> real b * sqrt 2" using sqrt2_bounds(1) by (intro mult_left_mono) simp_all
  moreover have "real (length xs) = real a + real b + 1" using ab(2) by linarith
  ultimately show ?thesis using ab(1) by simp
qed

lemma length_pinned:
  assumes kc: "successively king cs" "cs \<noteq> []" and kx: "successively king xs" "xs \<noteq> []"
    and lo: "path_len xs \<le> path_len cs"
    and hi: "path_len cs \<le> path_len xs + e"
    and nc: "real (length cs) - 1 \<le> N" and nx: "real (length xs) - 1 \<le> N"
    and sm: "3 * N * e < 1"
  shows "path_len cs = path_len xs"
proof (rule ccontr)
  assume ne: "path_len cs \<noteq> path_len xs"
  from king_len[OF kc] obtain a b :: nat where
    ab: "path_len cs = real a + real b * sqrt 2" "a + b + 1 = length cs" by blast
  from king_len[OF kx] obtain a' b' :: nat where
    ab': "path_len xs = real a' + real b' * sqrt 2" "a' + b' + 1 = length xs" by blast
  define p q where "p = int a - int a'" and "q = int b - int b'"
  have la: "real (length cs) = real a + real b + 1" using ab(2) by linarith
  have lb: "real (length xs) = real a' + real b' + 1" using ab'(2) by linarith
  have N0: "0 \<le> N" using nc la by linarith
  have P: "\<bar>real_of_int p\<bar> \<le> N" using nc nx la lb by (simp add: p_def)
  have Q: "\<bar>real_of_int q\<bar> \<le> N" using nc nx la lb by (simp add: q_def)
  have D: "real_of_int p + real_of_int q * sqrt 2 = path_len cs - path_len xs"
    unfolding ab(1) ab'(1) p_def q_def by (simp add: algebra_simps)
  have pos: "0 < real_of_int p + real_of_int q * sqrt 2" using lo ne D by linarith
  from sqrt2_gap[OF P Q pos] have "1 \<le> 3 * N * (path_len cs - path_len xs)" unfolding D .
  moreover have "3 * N * (path_len cs - path_len xs) \<le> 3 * N * e"
    using hi N0 by (intro mult_left_mono) simp_all
  ultimately show False using sm by linarith
qed

lemma octile_le_sum:
  "octile a g \<le> \<bar>real_of_int (fst g - fst a)\<bar> + \<bar>real_of_int (snd g - snd a)\<bar>"
proof -
  have t: "sqrt 2 - 1 \<le> 1" using sqrt2_bounds by simp
  have "(sqrt 2 - 1) * min \<bar>real_of_int (fst g - fst a)\<bar> \<bar>real_of_int (snd g - snd a)\<bar>
        \<le> 1 * min \<bar>real_of_int (fst g - fst a)\<bar> \<bar>real_of_int (snd g - snd a)\<bar>"
    using t by (intro mult_right_mono) simp_all
  then show ?thesis unfolding octile_def oct_def by (simp add: max_def min_def split: if_splits)
qed

lemma octile_grid:
  assumes "in_grid gs a" and "in_grid gs g"
  shows "octile a g \<le> real (cap gs) / 2"
proof -
  have "\<bar>real_of_int (fst g - fst a)\<bar> \<le> real_of_int (fst gs)"
       "\<bar>real_of_int (snd g - snd a)\<bar> \<le> real_of_int (snd gs)"
    using assms unfolding in_grid_def by linarith+
  with octile_le_sum[of a g] grid_sum[OF assms(1)] show ?thesis by linarith
qed

lemma accurate_exact: "0 \<le> eps \<Longrightarrow> accurate eps exact_ops"
  by (simp add: accurate_def exact_ops_def hypot_nonneg)

lemma accurate_skewed: "accurate (1 / 2 ^ 52) skewed_ops"
proof -
  have a: "\<bar>(x + y) * (1 + 1 / 2 ^ 53) - (x + y)\<bar> \<le> 1 / 2 ^ 52 * (x + y)"
    if "0 \<le> x" "0 \<le> y" for x y :: real
  proof -
    have "(x + y) * (1 + 1 / 2 ^ 53) - (x + y) = 1 / 2 ^ 53 * (x + y)" by (simp add: algebra_simps)
    moreover have "1 / 2 ^ 53 * (x + y) \<le> 1 / 2 ^ 52 * (x + y)"
      using that by (intro mult_right_mono) simp_all
    moreover have "0 \<le> 1 / 2 ^ 53 * (x + y)" using that by simp
    ultimately show ?thesis by simp
  qed
  have b: "\<bar>h * (1 - 1 / 2 ^ 53) - h\<bar> \<le> 1 / 2 ^ 52 * h" if "0 \<le> h" for h :: real
  proof -
    have "h * (1 - 1 / 2 ^ 53) - h = - (1 / 2 ^ 53 * h)" by (simp add: algebra_simps)
    moreover have "1 / 2 ^ 53 * h \<le> 1 / 2 ^ 52 * h"
      using that by (intro mult_right_mono) simp_all
    moreover have "0 \<le> 1 / 2 ^ 53 * h" using that by simp
    ultimately show ?thesis by simp
  qed
  show ?thesis
    unfolding accurate_def skewed_ops_def using a b[OF hypot_nonneg] by simp
qed

lemma small_40: "small (40, 40) (1 / 2 ^ 52)"
  by (simp add: small_def cap_def)

lemma exact_ops_fields:
  "fadd exact_ops x y = x + y"
  "fhypot exact_ops p q = hypot (real_of_int p) (real_of_int q)"
  "heuristic_fp exact_ops a b = heuristic a b"
  by (simp_all add: exact_ops_def heuristic_fp_def heuristic_def)

lemma visit_fp_exact: "visit_fp exact_ops gs ex offs goal cur d st = visit gs ex offs goal cur d st"
  unfolding visit_fp_def visit_def exact_ops_fields ..

lemma visit_all_fp_exact:
  "visit_all_fp exact_ops gs ex offs goal cur ds st = visit_all gs ex offs goal cur ds st"
  by (induction ds arbitrary: st) (simp_all add: visit_fp_exact split: sum.splits)

lemma a_star_loop_fp_exact:
  "inv_all gs ex offs goal start {} st \<Longrightarrow>
   a_star_loop_fp exact_ops gs ex offs goal st = a_star_loop gs ex offs goal st"
proof (induction "measure_of gs start st" arbitrary: st rule: less_induct)
  case less
  note inv = less.prems
  show ?case
  proof (cases "frontier st")
    case Nil
    then show ?thesis
      by (subst a_star_loop_fp.simps, subst a_star_loop.simps) simp
  next
    case (Cons item rest)
    let ?st1 = "st\<lparr>frontier := rest\<rparr>"
    note p = pop_inv[OF inv Cons]
    from p(3) obtain c where c: "cost_so_far st (snd item) = Some c" by blast
    show ?thesis
    proof (cases "snd item = goal")
      case True
      then show ?thesis using Cons
        by (subst a_star_loop_fp.simps, subst a_star_loop.simps) (simp add: Let_def)
    next
      case False
      have cur: "cost_so_far ?st1 (snd item) = Some c" using c by simp
      from visit_all_steps[OF p(1) cur subset_refl] obtain st2 where
        v: "visit_all gs ex offs goal (snd item) directions ?st1 = Inr st2"
        and i2: "inv_all gs ex offs goal start {snd item} st2"
        and m2: "measure_of gs start st2 \<le> measure_of gs start ?st1"
        and c2: "cost_so_far st2 (snd item) = Some c"
        and n2: "\<forall>d\<in>set directions. ok gs ex offs (fst (snd item) + fst d, snd (snd item) + snd d) \<longrightarrow>
                  (\<exists>cm. cost_so_far st2 (fst (snd item) + fst d, snd (snd item) + snd d) = Some cm \<and>
                        cm \<le> c + step_cost (snd item) (fst (snd item) + fst d, snd (snd item) + snd d))"
        by blast
      have inv2: "inv_all gs ex offs goal start {} st2" by (rule close_current[OF i2 c2 n2])
      have lt: "measure_of gs start st2 < measure_of gs start st" using m2 p(2) by simp
      have "a_star_loop_fp exact_ops gs ex offs goal st = a_star_loop_fp exact_ops gs ex offs goal st2"
        using Cons False v by (subst a_star_loop_fp.simps) (simp add: Let_def visit_all_fp_exact)
      moreover have "a_star_loop gs ex offs goal st = a_star_loop gs ex offs goal st2"
        using Cons False v by (subst a_star_loop.simps) (simp add: Let_def)
      ultimately show ?thesis using less.hyps[OF lt inv2] by simp
    qed
  qed
qed

lemma a_star_fp_exact: "a_star_fp exact_ops g start goal obs gs = a_star g start goal obs gs"
  unfolding a_star_fp_def a_star_def Let_def
  by (simp add: a_star_loop_fp_exact[OF init_inv] split: sum.splits)

lemma fp_shortest_route:
  assumes "relative_offsets (initial_positions g) (center_id g) = Inr ro"
    and "in_grid gs start" and "in_grid gs goal"
    and "exact_request gs start goal"
    and "accurate eps A" and "small gs eps"
  shows "\<exists>cs. a_star_fp A g start goal [] gs = Some (Inr (map to_float cs), g\<lparr>expanded_obstacles := {}\<rparr>) \<and>
              (if (move gs {} (map snd ro))\<^sup>*\<^sup>* start goal
               then cs \<noteq> [] \<and> hd cs = start \<and> last cs = goal \<and> successively king cs \<and>
                    path_len cs = octile start goal \<and>
                    (\<forall>xs. xs \<noteq> [] \<and> hd xs = start \<and> last xs = goal \<and> successively king xs \<longrightarrow>
                          path_len cs \<le> path_len xs)
               else cs = []) \<and>
              (is_valid_position gs {} (map snd ro) (to_float start) \<and>
               is_valid_position gs {} (map snd ro) (to_float goal) \<longrightarrow>
               (move gs {} (map snd ro))\<^sup>*\<^sup>* start goal)"
proof -
  let ?offs = "map snd ro"
  let ?dl = "slack gs eps"
  define K where "K = real (cap gs)"
  note f = small_facts[OF accurateD(1)[OF assms(5)] assms(6)]
  have K: "2 \<le> K" unfolding K_def by (rule cap_ge)
  have ex: "{} = expand (expanded_obstacles g) [] (current_shape_type g) (safety_margin g) gs"
    by (simp add: expand_nil)
  from a_star_fp_total[OF assms(1) ex refl assms(5,6,3), of start] obtain cs where
    a: "a_star_fp A g start goal [] gs = Some (Inr (map to_float cs), g\<lparr>expanded_obstacles := {}\<rparr>)"
    and b: "if (move gs {} ?offs)\<^sup>*\<^sup>* start goal
            then is_route gs {} ?offs start goal cs \<and>
                 (start = goal \<longrightarrow> cs = [start]) \<and>
                 (\<exists>c. 0 \<le> c \<and> c + 2 \<le> real (cap gs) \<and>
                      path_len cs \<le> c + ?dl * (2 * c) \<and>
                      real (length cs) - 1 \<le> 2 * c \<and>
                      (\<forall>xs. is_route gs {} ?offs start goal xs \<longrightarrow>
                            c \<le> path_len xs + ?dl * (real (length xs) + 1)))
            else cs = []"
    by blast
  have low: "octile start goal \<le> path_len xs"
    if "xs \<noteq> [] \<and> hd xs = start \<and> last xs = goal \<and> successively king xs" for xs
    using octile_lower[of xs] that by auto
  have 1: "cs \<noteq> [] \<and> hd cs = start \<and> last cs = goal \<and> successively king cs \<and>
           path_len cs = octile start goal \<and>
           (\<forall>xs. xs \<noteq> [] \<and> hd xs = start \<and> last xs = goal \<and> successively king xs \<longrightarrow>
                 path_len cs \<le> path_len xs)"
    if r: "(move gs {} ?offs)\<^sup>*\<^sup>* start goal"
  proof -
    from b r have rt: "is_route gs {} ?offs start goal cs"
      and s: "start = goal \<longrightarrow> cs = [start]"
      by simp_all
    from b r obtain c where c: "0 \<le> c" "c + 2 \<le> K"
      "path_len cs \<le> c + ?dl * (2 * c)" "real (length cs) - 1 \<le> 2 * c"
      and o: "\<forall>xs. is_route gs {} ?offs start goal xs \<longrightarrow>
                   c \<le> path_len xs + ?dl * (real (length xs) + 1)"
      unfolding K_def by auto
    from rt have e: "cs \<noteq> []" "hd cs = start" "last cs = goal" and sm: "successively (move gs {} ?offs) cs"
      by (simp_all add: is_route_def)
    have k: "successively king cs"
      using sm by (rule successively_weaken) (simp add: move_def king_def)
    have ge: "octile start goal \<le> path_len cs" using low[of cs] e k by simp
    have "path_len cs = octile start goal"
    proof (cases "start = goal")
      case True
      with s show ?thesis by (simp add: octile_def oct_zero)
    next
      case False
      with r empty_grid_route[of gs ?offs start goal] obtain xs where
        xr: "is_route gs {} ?offs start goal xs" and xl: "path_len xs = octile start goal" by blast
      from xr have xe: "xs \<noteq> []" and xm: "successively (move gs {} ?offs) xs"
        by (simp_all add: is_route_def)
      have xk: "successively king xs"
        using xm by (rule successively_weaken) (simp add: move_def king_def)
      have L: "path_len xs \<le> K / 2" unfolding xl K_def by (rule octile_grid[OF assms(2,3)])
      have nx: "real (length xs) - 1 \<le> path_len xs" by (rule king_len_le[OF xk xe])
      have cx: "c \<le> path_len xs + ?dl * (real (length xs) + 1)" using o xr by blast
      have "?dl * (real (length xs) + 1) \<le> ?dl * (2 * K)"
        using f(4) nx L K by (intro mult_left_mono) linarith+
      moreover have "?dl * (2 * c) \<le> ?dl * (2 * K)"
        using f(4) c(2) by (intro mult_left_mono) linarith+
      ultimately have hi: "path_len cs \<le> path_len xs + ?dl * (4 * K)"
        using c(3) cx by (simp add: algebra_simps)
      have lo: "path_len xs \<le> path_len cs" using ge xl by simp
      have n1: "real (length cs) - 1 \<le> 2 * K" using c(2,4) by linarith
      have n2: "real (length xs) - 1 \<le> 2 * K" using nx L K by linarith
      have "3 * (2 * K) * (?dl * (4 * K)) = (?dl * (48 * K ^ 2)) / 2"
        by (simp add: power2_eq_square)
      with f(5) have sm3: "3 * (2 * K) * (?dl * (4 * K)) < 1" unfolding K_def by linarith
      from length_pinned[OF k e(1) xk xe lo hi n1 n2 sm3] xl show ?thesis by simp
    qed
    with e k low show ?thesis by simp
  qed
  have 2: "(move gs {} ?offs)\<^sup>*\<^sup>* start goal"
    if "is_valid_position gs {} ?offs (to_float start) \<and> is_valid_position gs {} ?offs (to_float goal)"
  proof -
    from that assms(2,3) have "ok gs {} ?offs start \<and> ok gs {} ?offs goal" by (simp add: ok_def)
    with empty_grid_route[of gs ?offs start goal] obtain xs where
      "is_route gs {} ?offs start goal xs" by blast
    then show ?thesis by (rule route_reach)
  qed
  show ?thesis
  proof (intro exI[of _ cs] conjI)
    show "a_star_fp A g start goal [] gs = Some (Inr (map to_float cs), g\<lparr>expanded_obstacles := {}\<rparr>)"
      by (rule a)
    show "if (move gs {} ?offs)\<^sup>*\<^sup>* start goal
          then cs \<noteq> [] \<and> hd cs = start \<and> last cs = goal \<and> successively king cs \<and>
               path_len cs = octile start goal \<and>
               (\<forall>xs. xs \<noteq> [] \<and> hd xs = start \<and> last xs = goal \<and> successively king xs \<longrightarrow>
                     path_len cs \<le> path_len xs)
          else cs = []"
    proof (cases "(move gs {} ?offs)\<^sup>*\<^sup>* start goal")
      case True
      show ?thesis unfolding if_P[OF True] by (rule 1[OF True])
    next
      case False
      with b show ?thesis by simp
    qed
    show "is_valid_position gs {} ?offs (to_float start) \<and>
          is_valid_position gs {} ?offs (to_float goal) \<longrightarrow>
          (move gs {} ?offs)\<^sup>*\<^sup>* start goal"
      using 2 by blast
  qed
qed

lemma small_zero: "small gs 0"
  by (simp add: small_def)

lemma a_star_exact_shortest:
  assumes "relative_offsets (initial_positions g) (center_id g) = Inr ro"
    and "in_grid gs start" and "in_grid gs goal"
    and "exact_request gs start goal"
  shows "\<exists>cs. a_star g start goal [] gs = Some (Inr (map to_float cs), g\<lparr>expanded_obstacles := {}\<rparr>) \<and>
              (if (move gs {} (map snd ro))\<^sup>*\<^sup>* start goal
               then cs \<noteq> [] \<and> hd cs = start \<and> last cs = goal \<and> successively king cs \<and>
                    path_len cs = octile start goal \<and>
                    (\<forall>xs. xs \<noteq> [] \<and> hd xs = start \<and> last xs = goal \<and> successively king xs \<longrightarrow>
                          path_len cs \<le> path_len xs)
               else cs = []) \<and>
              (is_valid_position gs {} (map snd ro) (to_float start) \<and>
               is_valid_position gs {} (map snd ro) (to_float goal) \<longrightarrow>
               (move gs {} (map snd ro))\<^sup>*\<^sup>* start goal)"
  using fp_shortest_route[OF assms accurate_exact[OF order_refl] small_zero]
  unfolding a_star_fp_exact .

text \<open>
  Claim C3 as stated fails: on the 40 by 40 grid without obstacles, start (5, 5) and goal
  (0, 0) are both in bounds, yet the dog's planner returns the empty path, because the
  dog's footprint does not fit at (0, 0). The empty path has length 0, not the distance
  between the two cells. No cost is compared on the way, so the arithmetic plays no part.
\<close>
theorem a_star_dog_border_counterexample:
  "in_grid (40, 40) (5, 5) \<and> in_grid (40, 40) (0, 0) \<and>
   a_star initial_robot (5, 5) (0, 0) [] (40, 40) = Some (Inr [], initial_robot) \<and>
   a_star_fp exact_ops initial_robot (5, 5) (0, 0) [] (40, 40) = Some (Inr [], initial_robot)"
proof -
  let ?offs = "map snd (map (\<lambda>(k, v). (k, vsub v (1, 1))) (shape_positions get_dog_shape))"
  from a_star_total[OF dog_offsets refl refl, of "(5, 5)" "(0, 0)" "[]" "(40, 40)"]
  obtain cs where
    a: "a_star initial_robot (5, 5) (0, 0) [] (40, 40) = Some (Inr (map to_float cs), initial_robot)"
    and b: "if (move (40, 40) {} ?offs)\<^sup>*\<^sup>* (5, 5) (0, 0)
            then is_route (40, 40) {} ?offs (5, 5) (0, 0) cs \<and>
                 (\<forall>xs. is_route (40, 40) {} ?offs (5, 5) (0, 0) xs \<longrightarrow> path_len cs \<le> path_len xs) \<and>
                 ((5, 5) = ((0, 0) :: cell) \<longrightarrow> cs = [(5, 5)])
            else cs = []"
    unfolding expand_nil initial_robot_expanded by blast
  have "\<not> ok (40, 40) {} ?offs (0, 0)"
    using dog_invalid_00 by (simp add: ok_def to_float_def)
  then have "\<not> (move (40, 40) {} ?offs)\<^sup>*\<^sup>* (5, 5) (0, 0)"
    using reach_ok[of "(40, 40)" "{}" ?offs "(5, 5)" "(0, 0)"] by auto
  with b have "cs = []" by simp
  with a show ?thesis by (simp add: in_grid_def a_star_fp_exact)
qed

text \<open>
  Claim C3, amended. On a grid without obstacles, for every start and goal in bounds (and
  a grid that float64 holds exactly), with any cost arithmetic that is accurate to a
  relative error small for the grid, float64 and exact reals among them: when goal can be
  reached from start by moves, which holds whenever the footprint fits at both cells,
  \<open>a_star_fp\<close> returns a path from start to goal whose consecutive cells differ by one
  of the eight directions and whose length is the 8-connected distance between them: it
  equals \<open>octile start goal\<close>, and no sequence of king steps from start to goal, inside
  the grid or not, is shorter. When goal cannot be reached, as when the footprint does not
  fit at goal, the path is empty. With exact costs the relative error is 0, which is small
  for every grid: lemma \<open>a_star_exact_shortest\<close> is that case, stated for \<open>a_star\<close>.
\<close>
theorem a_star_shortest_route:
  assumes "relative_offsets (initial_positions g) (center_id g) = Inr ro"
    and "in_grid gs start" and "in_grid gs goal"
    and "exact_request gs start goal"
    and "accurate eps A" and "small gs eps"
  shows "\<exists>cs. a_star_fp A g start goal [] gs = Some (Inr (map to_float cs), g\<lparr>expanded_obstacles := {}\<rparr>) \<and>
              (if (move gs {} (map snd ro))\<^sup>*\<^sup>* start goal
               then cs \<noteq> [] \<and> hd cs = start \<and> last cs = goal \<and> successively king cs \<and>
                    path_len cs = octile start goal \<and>
                    (\<forall>xs. xs \<noteq> [] \<and> hd xs = start \<and> last xs = goal \<and> successively king xs \<longrightarrow>
                          path_len cs \<le> path_len xs)
               else cs = []) \<and>
              (is_valid_position gs {} (map snd ro) (to_float start) \<and>
               is_valid_position gs {} (map snd ro) (to_float goal) \<longrightarrow>
               (move gs {} (map snd ro))\<^sup>*\<^sup>* start goal)"
  using assms by (rule fp_shortest_route)

text \<open>
  Witness for the amended C3: the dog planned from (5, 5) to (7, 6) on the empty 40 by 40
  grid with the inexact arithmetic \<open>skewed_ops\<close>; the path has one diagonal and one axis
  step.
\<close>
theorem a_star_shortest_route_witness:
  "relative_offsets (initial_positions initial_robot) (center_id initial_robot)
     = Inr (map (\<lambda>(k, v). (k, vsub v (1, 1))) (shape_positions get_dog_shape)) \<and>
   in_grid (40, 40) (5, 5) \<and> in_grid (40, 40) (7, 6) \<and> exact_request (40, 40) (5, 5) (7, 6) \<and>
   accurate (1 / 2 ^ 52) skewed_ops \<and> small (40, 40) (1 / 2 ^ 52) \<and>
   (\<exists>cs. a_star_fp skewed_ops initial_robot (5, 5) (7, 6) [] (40, 40)
            = Some (Inr (map to_float cs), initial_robot) \<and>
         cs \<noteq> [] \<and> hd cs = (5, 5) \<and> last cs = (7, 6) \<and> path_len cs = 1 + sqrt 2)"
proof -
  let ?offs = "map snd (map (\<lambda>(k, v). (k, vsub v (1, 1))) (shape_positions get_dog_shape))"
  have i: "in_grid (40, 40) (5, 5)" "in_grid (40, 40) (7, 6)" by (simp_all add: in_grid_def)
  have r: "exact_request (40, 40) (5, 5) (7, 6)"
    by (simp add: exact_request_def float_exact_def)
  have o: "octile (5, 5) (7, 6) = 1 + sqrt 2" by (simp add: octile_def oct_def)
  from a_star_shortest_route[OF dog_offsets i r accurate_skewed small_40] dog_valid_55 dog_valid_76
  obtain cs where
    "a_star_fp skewed_ops initial_robot (5, 5) (7, 6) [] (40, 40)
       = Some (Inr (map to_float cs), initial_robot) \<and>
     cs \<noteq> [] \<and> hd cs = (5, 5) \<and> last cs = (7, 6) \<and> path_len cs = 1 + sqrt 2"
    unfolding initial_robot_expanded o by (auto split: if_splits)
  then have "\<exists>cs. a_star_fp skewed_ops initial_robot (5, 5) (7, 6) [] (40, 40)
       = Some (Inr (map to_float cs), initial_robot) \<and>
     cs \<noteq> [] \<and> hd cs = (5, 5) \<and> last cs = (7, 6) \<and> path_len cs = 1 + sqrt 2"
    by (rule exI)
  then show ?thesis using dog_offsets i r accurate_skewed small_40 by blast
qed

end
